theory Spec2Isabelle
  imports Main
begin

section \<open>The buffer manager of src/buffer.cpp\<close>

text \<open>
  The class \<open>BufMgr\<close> keeps a table of frame descriptors, a pool of pages, a hash
  table from (file, page number) to frame number and a clock hand. Its methods are
  embedded as functions on a record of these fields. The file objects it talks to are
  part of the same record (\<open>disk\<close>), together with a log of the calls made on them
  (\<open>ioLog\<close>), so that every effect of a method is visible in the value it returns.
  A C++ exception is a value \<open>Inl e\<close>, returned together with the state the
  exception leaves behind.
\<close>

subsection \<open>Data\<close>

type_synonym FrameId = nat
type_synonym PageId = nat
type_synonym FileId = nat

text \<open>A \<open>File*\<close> is the identity of a file object, or \<open>None\<close> for the null pointer.\<close>

type_synonym FilePtr = "FileId option"

text \<open>
  Modelled from the spec: the class Page is declared outside src/. Section 6 describes
  it as an opaque byte container that exposes its own page identifier.
\<close>

record Page =
  page_number :: PageId
  contents :: string

text \<open>
  Modelled from the spec: the page identifier of a descriptor that holds no page, and of
  a page object that was never filled (section 3 writes \<open>none\<close>); a reserved number.
\<close>

definition INVALID_NUMBER :: PageId where
  "INVALID_NUMBER = 0"

definition empty_Page :: Page where
  "empty_Page = \<lparr>page_number = INVALID_NUMBER, contents = []\<rparr>"

text \<open>
  Modelled from the spec: the class BufDesc is declared in buffer.h, outside src/.
  Section 3 lists its fields (\<open>pinCount\<close> is an unsigned counter of no stated width,
  taken as a natural number); buffer.cpp also uses \<open>frameNo\<close>. The field \<open>file\<close>
  is written \<open>file'\<close>.
\<close>

record BufDesc =
  file' :: FilePtr
  pageNo :: PageId
  frameNo :: FrameId
  pinCnt :: nat
  dirty :: bool
  valid :: bool
  refbit :: bool

text \<open>
  Modelled from the spec: \<open>BufDesc::Clear\<close> is missing from src/. Sections 3 and 4 call
  its result the free state: not valid, pin count 0, not dirty, no owning file, no page.
\<close>

definition BufDesc_Clear :: "BufDesc \<Rightarrow> BufDesc" where
  "BufDesc_Clear d =
     d\<lparr>file' := None, pageNo := INVALID_NUMBER, pinCnt := 0,
       dirty := False, valid := False, refbit := False\<rparr>"

text \<open>
  Modelled from the spec: \<open>BufDesc::Set\<close> is missing from src/. Section 4.3 gives the
  descriptor it leaves: valid, pin count 1, recency bit set, not dirty, owned by the
  file and page passed in.
\<close>

definition BufDesc_Set :: "BufDesc \<Rightarrow> FilePtr \<Rightarrow> PageId \<Rightarrow> BufDesc" where
  "BufDesc_Set d filePtr pageNum =
     d\<lparr>file' := filePtr, pageNo := pageNum, pinCnt := 1,
       dirty := False, valid := True, refbit := True\<rparr>"

text \<open>
  Modelled from the spec: the default constructor of BufDesc is missing from src/.
  Section 3 says a descriptor starts in the free state.
\<close>

definition BufDesc_new :: BufDesc where
  "BufDesc_new =
     \<lparr>file' = None, pageNo = INVALID_NUMBER, frameNo = 0, pinCnt = 0,
      dirty = False, valid = False, refbit = False\<rparr>"

text \<open>The calls a buffer manager makes on a file object, in the order made.\<close>

datatype io_call =
    IoRead FileId PageId
  | IoWrite FileId Page
  | IoAllocate FileId
  | IoDelete FileId PageId

text \<open>
  The exceptions of buffer.cpp. \<open>IOError\<close> stands for whatever a file object throws
  (section 7). \<open>UndefinedBehaviour\<close> marks what C++ leaves undefined: the remainder by
  zero in \<open>advanceClock\<close> when the pool has no frame, an index outside an array, a call
  through a null file pointer, a conversion or signed product out of range.
\<close>

datatype error =
    BufferExceededException
  | PageNotPinnedException
  | PagePinnedException
  | BadBufferException
  | IOError
  | UndefinedBehaviour

text \<open>
  Modelled from the spec: the class BufHashTbl is missing from src/. Sections 2 and 3
  describe it as a mapping from (file identity, page identifier) to a frame with unique
  keys; \<open>lookup\<close> misses with HashNotFoundException (caught in buffer.cpp), modelled
  by \<open>None\<close>. The spec says nothing of a capacity limit, of removing an absent key or
  of inserting a present one: here the mapping is unbounded, removing an absent key
  changes nothing and inserting binds the key to the new frame.
\<close>

type_synonym BufHashTbl = "(FilePtr \<times> PageId) \<rightharpoonup> FrameId"

definition hash_lookup :: "BufHashTbl \<Rightarrow> FilePtr \<Rightarrow> PageId \<Rightarrow> FrameId option" where
  "hash_lookup h f p = h (f, p)"

definition hash_insert :: "BufHashTbl \<Rightarrow> FilePtr \<Rightarrow> PageId \<Rightarrow> FrameId \<Rightarrow> BufHashTbl" where
  "hash_insert h f p i = h((f, p) \<mapsto> i)"

definition hash_remove :: "BufHashTbl \<Rightarrow> FilePtr \<Rightarrow> PageId \<Rightarrow> BufHashTbl" where
  "hash_remove h f p = h((f, p) := None)"

text \<open>
  The fields of BufMgr (\<open>htsize\<close> is the capacity its constructor passes to the hash
  table), then the pages the files hold and the log of calls on them.
\<close>

record BufMgr =
  numBufs :: nat
  bufDescTable :: "BufDesc list"
  bufPool :: "Page list"
  hashTable :: BufHashTbl
  htsize :: int
  clockHand :: FrameId
  disk :: "(FileId \<times> PageId) \<rightharpoonup> string"
  ioLog :: "io_call list"

subsection \<open>The file collaborator\<close>

text \<open>
  Modelled from the spec: the class File is outside src/. Section 6 gives its interface;
  section 7 says its failures reach the caller as IOError. Here a file holds the pages
  present in \<open>disk\<close>; reading, writing or deleting a page that the file does not hold
  fails. What an allocation does is the file's choice, given as \<open>assigned\<close>: it fails
  (\<open>None\<close>), or it hands out a page of the number chosen, with empty contents. Every
  call is appended to \<open>ioLog\<close>, also when it fails.
\<close>

definition file_readPage :: "BufMgr \<Rightarrow> FileId \<Rightarrow> PageId \<Rightarrow> (error + Page) \<times> BufMgr" where
  "file_readPage s f p =
     (let s1 = s\<lparr>ioLog := ioLog s @ [IoRead f p]\<rparr> in
      case disk s (f, p) of
        None \<Rightarrow> (Inl IOError, s1)
      | Some c \<Rightarrow> (Inr \<lparr>page_number = p, contents = c\<rparr>, s1))"

definition file_writePage :: "BufMgr \<Rightarrow> FilePtr \<Rightarrow> Page \<Rightarrow> (error + unit) \<times> BufMgr" where
  "file_writePage s fp pg =
     (case fp of
        None \<Rightarrow> (Inl UndefinedBehaviour, s)
      | Some f \<Rightarrow>
          (let s1 = s\<lparr>ioLog := ioLog s @ [IoWrite f pg]\<rparr> in
           case disk s (f, page_number pg) of
             None \<Rightarrow> (Inl IOError, s1)
           | Some c \<Rightarrow> (Inr (), s1\<lparr>disk := (disk s)((f, page_number pg) \<mapsto> contents pg)\<rparr>)))"

definition file_allocatePage ::
  "BufMgr \<Rightarrow> FileId \<Rightarrow> PageId option \<Rightarrow> (error + Page) \<times> BufMgr" where
  "file_allocatePage s f assigned =
     (let s1 = s\<lparr>ioLog := ioLog s @ [IoAllocate f]\<rparr> in
      case assigned of
        None \<Rightarrow> (Inl IOError, s1)
      | Some newp \<Rightarrow>
          (Inr \<lparr>page_number = newp, contents = []\<rparr>,
           s1\<lparr>disk := (disk s)((f, newp) \<mapsto> [])\<rparr>))"

definition file_deletePage :: "BufMgr \<Rightarrow> FileId \<Rightarrow> PageId \<Rightarrow> (error + unit) \<times> BufMgr" where
  "file_deletePage s f p =
     (let s1 = s\<lparr>ioLog := ioLog s @ [IoDelete f p]\<rparr> in
      case disk s (f, p) of
        None \<Rightarrow> (Inl IOError, s1)
      | Some c \<Rightarrow> (Inr (), s1\<lparr>disk := (disk s)((f, p) := None)\<rparr>))"

subsection \<open>advanceClock and allocBuf\<close>

text \<open>
  \<open>clockHand = (clockHand+1)%numBufs\<close> on 32-bit unsigned integers. The remainder by
  zero is undefined in C++.
\<close>

definition advanceClock :: "BufMgr \<Rightarrow> error + BufMgr" where
  "advanceClock s =
     (if numBufs s = 0 then Inl UndefinedBehaviour
      else Inr (s\<lparr>clockHand := ((clockHand s + 1) mod 4294967296) mod numBufs s\<rparr>))"

text \<open>
  One iteration of the \<open>while(1)\<close> of allocBuf: the body either leaves the loop
  (\<open>break\<close> with the frame, or \<open>throw\<close>), or goes round again (\<open>continue\<close>) with
  the state and the local counter \<open>pcount\<close> of pinned frames met (32-bit unsigned).
\<close>

datatype scan =
    Leave "error + FrameId" BufMgr
  | Continue BufMgr nat

definition allocBuf_body :: "BufMgr \<Rightarrow> nat \<Rightarrow> scan" where
  "allocBuf_body s pcount =
     (case advanceClock s of
        Inl e \<Rightarrow> Leave (Inl e) s
      | Inr s1 \<Rightarrow>
          (let h = clockHand s1; d = bufDescTable s1 ! h in
           if pcount = numBufs s1 then Leave (Inl BufferExceededException) s1
           else if \<not> valid d then
             Leave (Inr h) (s1\<lparr>bufDescTable := (bufDescTable s1)[h := BufDesc_Clear d]\<rparr>)
           else if pinCnt d > 0 then
             Continue s1 ((pcount + 1) mod 4294967296)
           else if refbit d then
             Continue (s1\<lparr>bufDescTable := (bufDescTable s1)[h := d\<lparr>refbit := False\<rparr>]\<rparr>) pcount
           else
             (case (if dirty d then file_writePage s1 (file' d) (bufPool s1 ! h)
                    else (Inr (), s1)) of
                (Inl e, s2) \<Rightarrow> Leave (Inl e) s2
              | (Inr u, s2) \<Rightarrow>
                  Leave (Inr h)
                    (s2\<lparr>hashTable := hash_remove (hashTable s2) (file' d) (pageNo d),
                        bufDescTable := (bufDescTable s2)[h := BufDesc_Clear d]\<rparr>))))"

text \<open>
  The loop itself. \<open>steps\<close> is not in the source: it counts the iterations begun, that
  is the calls of advanceClock. The loop may not return, so its result is an option.
\<close>

partial_function (option) allocBuf_loop ::
  "BufMgr \<Rightarrow> nat \<Rightarrow> nat \<Rightarrow> ((error + FrameId) \<times> BufMgr \<times> nat) option" where
  "allocBuf_loop s pcount steps =
     (case allocBuf_body s pcount of
        Leave r s' \<Rightarrow> Some (r, s', Suc steps)
      | Continue s' pcount' \<Rightarrow> allocBuf_loop s' pcount' (Suc steps))"

text \<open>\<open>allocBuf\<close> returns the frame, the state and the number of iterations it took.\<close>

definition allocBuf :: "BufMgr \<Rightarrow> ((error + FrameId) \<times> BufMgr \<times> nat) option" where
  "allocBuf s = allocBuf_loop s 0 0"

subsection \<open>readPage, unPinPage, flushFile, allocPage, disposePage\<close>

text \<open>
  The page reference a method hands back (\<open>&bufPool[i]\<close>) is the frame number \<open>i\<close>.
  A frame number found in the hash table that lies outside the arrays is undefined
  behaviour in C++.
\<close>

definition readPage :: "BufMgr \<Rightarrow> FileId \<Rightarrow> PageId \<Rightarrow> ((error + FrameId) \<times> BufMgr) option" where
  "readPage s f pageNum =
     (case hash_lookup (hashTable s) (Some f) pageNum of
        Some i \<Rightarrow>
          (if i < numBufs s then
             Some (Inr i,
                   s\<lparr>bufDescTable := (bufDescTable s)
                        [i := (bufDescTable s ! i)
                           \<lparr>refbit := True, pinCnt := pinCnt (bufDescTable s ! i) + 1\<rparr>]\<rparr>)
           else Some (Inl UndefinedBehaviour, s))
      | None \<Rightarrow>
          (case allocBuf s of
             None \<Rightarrow> None
           | Some (Inl e, s1, n) \<Rightarrow> Some (Inl e, s1)
           | Some (Inr i, s1, n) \<Rightarrow>
               (case file_readPage s1 f pageNum of
                  (Inl e, s2) \<Rightarrow> Some (Inl e, s2)
                | (Inr pg, s2) \<Rightarrow>
                    Some (Inr i,
                          s2\<lparr>bufPool := (bufPool s2)[i := pg],
                             hashTable := hash_insert (hashTable s2) (Some f) pageNum i,
                             bufDescTable := (bufDescTable s2)
                               [i := BufDesc_Set (bufDescTable s2 ! i) (Some f) pageNum]\<rparr>))))"

definition unPinPage :: "BufMgr \<Rightarrow> FileId \<Rightarrow> PageId \<Rightarrow> bool \<Rightarrow> (error + unit) \<times> BufMgr" where
  "unPinPage s f pageNum isDirty =
     (case hash_lookup (hashTable s) (Some f) pageNum of
        None \<Rightarrow> (Inr (), s)
      | Some fr \<Rightarrow>
          (if fr < numBufs s then
             (let tmpbuf = bufDescTable s ! fr in
              if pinCnt tmpbuf = 0 then (Inl PageNotPinnedException, s)
              else if pinCnt tmpbuf > 0 then
                (let d1 = (if isDirty then tmpbuf\<lparr>dirty := True\<rparr> else tmpbuf) in
                 (Inr (), s\<lparr>bufDescTable := (bufDescTable s)[fr := d1\<lparr>pinCnt := pinCnt d1 - 1\<rparr>]\<rparr>))
              else (Inr (), s))
           else (Inl UndefinedBehaviour, s)))"

text \<open>The body of the \<open>for\<close> loop of flushFile, for frame \<open>i\<close>.\<close>

definition flushFile_body :: "BufMgr \<Rightarrow> FileId \<Rightarrow> FrameId \<Rightarrow> (error + unit) \<times> BufMgr" where
  "flushFile_body s f i =
     (let d = bufDescTable s ! i in
      if file' d = Some f then
        (if \<not> valid d then (Inl BadBufferException, s)
         else if pinCnt d > 0 then (Inl PagePinnedException, s)
         else if dirty d then
           (if frameNo d < numBufs s then
              (case file_writePage s (file' d) (bufPool s ! frameNo d) of
                 (Inl e, s1) \<Rightarrow> (Inl e, s1)
               | (Inr u, s1) \<Rightarrow>
                   (Inr (),
                    s1\<lparr>hashTable := hash_remove (hashTable s1) (Some f) (pageNo d),
                       bufDescTable := (bufDescTable s1)[i := BufDesc_Clear (d\<lparr>dirty := False\<rparr>)]\<rparr>))
            else (Inl UndefinedBehaviour, s))
         else (Inr (), s))
      else (Inr (), s))"

fun flushFile_loop :: "FrameId list \<Rightarrow> BufMgr \<Rightarrow> FileId \<Rightarrow> (error + unit) \<times> BufMgr" where
  "flushFile_loop [] s f = (Inr (), s)"
| "flushFile_loop (i # rest) s f =
     (case flushFile_body s f i of
        (Inl e, s1) \<Rightarrow> (Inl e, s1)
      | (Inr u, s1) \<Rightarrow> flushFile_loop rest s1 f)"

definition flushFile :: "BufMgr \<Rightarrow> FileId \<Rightarrow> (error + unit) \<times> BufMgr" where
  "flushFile s f = flushFile_loop [0..<numBufs s] s f"

text \<open>
  \<open>assigned\<close> is what \<open>file->allocatePage()\<close> does: the page number it assigns, or
  \<open>None\<close> when it throws. The method hands back the page number and the page reference.
\<close>

definition allocPage ::
  "BufMgr \<Rightarrow> FileId \<Rightarrow> PageId option \<Rightarrow> ((error + PageId \<times> FrameId) \<times> BufMgr) option" where
  "allocPage s f assigned =
     (case file_allocatePage s f assigned of
        (Inl e, s0) \<Rightarrow> Some (Inl e, s0)
      | (Inr p, s0) \<Rightarrow>
          (case allocBuf s0 of
             None \<Rightarrow> None
           | Some (Inl e, s1, n) \<Rightarrow> Some (Inl e, s1)
           | Some (Inr fr, s1, n) \<Rightarrow>
               Some (Inr (page_number p, fr),
                     s1\<lparr>bufPool := (bufPool s1)[fr := p],
                        hashTable := hash_insert (hashTable s1) (Some f) (page_number p) fr,
                        bufDescTable := (bufDescTable s1)
                          [fr := BufDesc_Set (bufDescTable s1 ! fr) (Some f) (page_number p)]\<rparr>)))"

text \<open>When the lookup misses, disposePage prints the exception and returns.\<close>

definition disposePage :: "BufMgr \<Rightarrow> FileId \<Rightarrow> PageId \<Rightarrow> (error + unit) \<times> BufMgr" where
  "disposePage s f pageNum =
     (case hash_lookup (hashTable s) (Some f) pageNum of
        None \<Rightarrow> (Inr (), s)
      | Some fid \<Rightarrow>
          (if fid < numBufs s then
             (let s1 = s\<lparr>bufDescTable := (bufDescTable s)[fid := BufDesc_Clear (bufDescTable s ! fid)]\<rparr>;
                  s2 = s1\<lparr>hashTable := hash_remove (hashTable s1) (Some f) pageNum\<rparr>
              in file_deletePage s2 f pageNum)
           else (Inl UndefinedBehaviour, s)))"

subsection \<open>The constructor\<close>

text \<open>
  \<open>int htsize = ((((int) (bufs * 1.2))*2)/2)+1\<close>. The product is taken in IEEE 754
  double precision: \<open>bufs\<close> converts exactly, the constant \<open>1.2\<close> is the double
  \<open>double_1_2 / 2^52\<close>, and the exact product is rounded to 53 significant bits, ties
  to even. The conversion to \<open>int\<close> truncates; it is undefined out of the range of a
  32-bit \<open>int\<close>, as is the product by 2.
\<close>

definition double_1_2 :: nat where
  "double_1_2 = 5404319552844595"

fun bitlen :: "nat \<Rightarrow> nat" where
  "bitlen n = (if n = 0 then 0 else Suc (bitlen (n div 2)))"

declare bitlen.simps [simp del]

definition round53 :: "nat \<Rightarrow> nat" where
  "round53 n =
     (if n < 2 ^ 53 then n
      else
        (let sh = bitlen n - 53; q = n div 2 ^ sh; r = n mod 2 ^ sh; half = 2 ^ (sh - 1)
         in (if r > half \<or> (r = half \<and> odd q) then q + 1 else q) * 2 ^ sh))"

definition int_of_mul_1_2 :: "nat \<Rightarrow> int option" where
  "int_of_mul_1_2 bufs =
     (let x = int (round53 (bufs * double_1_2) div 2 ^ 52)
      in if x < 2147483648 then Some x else None)"

definition htsize_of :: "nat \<Rightarrow> int option" where
  "htsize_of bufs =
     (case int_of_mul_1_2 bufs of
        None \<Rightarrow> None
      | Some x \<Rightarrow> if x * 2 < 2147483648 then Some (((x * 2) div 2) + 1) else None)"

text \<open>
  \<open>BufMgr(bufs)\<close>, for a 32-bit unsigned \<open>bufs\<close>; \<open>dsk\<close> is what the files hold when
  the manager is made. \<open>clockHand = bufs - 1\<close> wraps around at \<open>bufs = 0\<close>.
\<close>

definition BufMgr_new :: "nat \<Rightarrow> ((FileId \<times> PageId) \<rightharpoonup> string) \<Rightarrow> error + BufMgr" where
  "BufMgr_new bufs dsk =
     (case htsize_of bufs of
        None \<Rightarrow> Inl UndefinedBehaviour
      | Some h \<Rightarrow>
          Inr \<lparr>numBufs = bufs,
               bufDescTable = map (\<lambda>i. BufDesc_new\<lparr>frameNo := i, valid := False\<rparr>) [0..<bufs],
               bufPool = replicate bufs empty_Page,
               hashTable = Map.empty,
               htsize = h,
               clockHand = (bufs + 4294967295) mod 4294967296,
               disk = dsk,
               ioLog = []\<rparr>)"

subsection \<open>States of a running manager\<close>


text \<open>
  The states a manager can be in: made by the constructor and changed by its public
  methods, whatever they return, and by a caller writing into a page of the pool
  through a reference it was given. A file that allocates a page assigns to it a number
  that none of its pages has.
\<close>

inductive reachable :: "BufMgr \<Rightarrow> bool" where
  made: "bufs < 4294967296 \<Longrightarrow> BufMgr_new bufs dsk = Inr s \<Longrightarrow> reachable s"
| read: "reachable s \<Longrightarrow> readPage s f p = Some (r, s') \<Longrightarrow> reachable s'"
| unpinned: "reachable s \<Longrightarrow> unPinPage s f p b = (u, s') \<Longrightarrow> reachable s'"
| flushed: "reachable s \<Longrightarrow> flushFile s f = (u, s') \<Longrightarrow> reachable s'"
| allocated:
    "reachable s \<Longrightarrow> disk s (f, newp) = None \<Longrightarrow>
     allocPage s f (Some newp) = Some (a, s') \<Longrightarrow> reachable s'"
| refused: "reachable s \<Longrightarrow> allocPage s f None = Some (a, s') \<Longrightarrow> reachable s'"
| disposed: "reachable s \<Longrightarrow> disposePage s f p = (u, s') \<Longrightarrow> reachable s'"
| written:
    "reachable s \<Longrightarrow> i < numBufs s \<Longrightarrow>
     reachable (s\<lparr>bufPool := (bufPool s)[i := (bufPool s ! i)\<lparr>contents := c\<rparr>]\<rparr>)"

subsection \<open>Notions used to state and prove the properties\<close>

text \<open>The frame the clock hand lands on when it is advanced.\<close>

definition nextHand :: "BufMgr \<Rightarrow> FrameId" where
  "nextHand s = ((clockHand s + 1) mod 4294967296) mod numBufs s"

text \<open>
  What the scan of allocBuf leaves alone while it goes round: everything but the clock
  hand and the recency bits.
\<close>

definition unref :: "BufDesc \<Rightarrow> BufDesc" where
  "unref d = d\<lparr>refbit := False\<rparr>"

definition scan_view :: "BufMgr \<Rightarrow> BufMgr" where
  "scan_view s = s\<lparr>clockHand := 0, bufDescTable := map unref (bufDescTable s)\<rparr>"




text \<open>
  Index and descriptor table agree: with \<open>N\<close> frames, table \<open>t\<close>, index \<open>h\<close> and \<open>D\<close> the
  pages the files hold, the index maps a key to a frame exactly when the frame is valid for
  that key, and every valid frame holds a page that its file has.
\<close>

definition agree :: "nat \<Rightarrow> BufDesc list \<Rightarrow> BufHashTbl \<Rightarrow> (FileId \<times> PageId) set \<Rightarrow> bool" where
  "agree N t h D \<longleftrightarrow>
     length t = N \<and>
     (\<forall>f p i. h (f, p) = Some i \<longleftrightarrow> i < N \<and> valid (t ! i) \<and> file' (t ! i) = f \<and> pageNo (t ! i) = p) \<and>
     (\<forall>i<N. valid (t ! i) \<longrightarrow> (\<exists>f. file' (t ! i) = Some f \<and> (f, pageNo (t ! i)) \<in> D))"

definition pool_inv :: "BufMgr \<Rightarrow> bool" where
  "pool_inv s \<longleftrightarrow> agree (numBufs s) (bufDescTable s) (hashTable s) (dom (disk s))"


subsection \<open>Example pools\<close>

text \<open>Two frames holding pages 5 and 6 of file 1, both pinned.\<close>

definition pool_pinned :: BufMgr where
  "pool_pinned =
     \<lparr>numBufs = 2,
      bufDescTable =
        [\<lparr>file' = Some 1, pageNo = 5, frameNo = 0, pinCnt = 1,
          dirty = False, valid = True, refbit = True\<rparr>,
         \<lparr>file' = Some 1, pageNo = 6, frameNo = 1, pinCnt = 2,
          dirty = False, valid = True, refbit = True\<rparr>],
      bufPool = [\<lparr>page_number = 5, contents = ''five''\<rparr>, \<lparr>page_number = 6, contents = ''six''\<rparr>],
      hashTable = [(Some 1, 5) \<mapsto> 0, (Some 1, 6) \<mapsto> 1],
      htsize = 3,
      clockHand = 1,
      disk = [(1, 5) \<mapsto> ''five'', (1, 6) \<mapsto> ''six''],
      ioLog = []\<rparr>"

text \<open>
  Two frames: frame 0 holds page 5 of file 1, pinned and dirty; frame 1 holds page 6,
  not pinned, clean, its recency bit clear.
\<close>

definition pool_mixed :: BufMgr where
  "pool_mixed =
     \<lparr>numBufs = 2,
      bufDescTable =
        [\<lparr>file' = Some 1, pageNo = 5, frameNo = 0, pinCnt = 2,
          dirty = True, valid = True, refbit = True\<rparr>,
         \<lparr>file' = Some 1, pageNo = 6, frameNo = 1, pinCnt = 0,
          dirty = False, valid = True, refbit = False\<rparr>],
      bufPool = [\<lparr>page_number = 5, contents = ''FIVE''\<rparr>, \<lparr>page_number = 6, contents = ''six''\<rparr>],
      hashTable = [(Some 1, 5) \<mapsto> 0, (Some 1, 6) \<mapsto> 1],
      htsize = 3,
      clockHand = 1,
      disk = [(1, 5) \<mapsto> ''five'', (1, 6) \<mapsto> ''six''],
      ioLog = []\<rparr>"

text \<open>
  One frame, holding page 1 of file 1: not pinned, dirty, its recency bit set. The
  file holds pages 1 and 2.
\<close>

definition pool_dirty :: BufMgr where
  "pool_dirty =
     \<lparr>numBufs = 1,
      bufDescTable =
        [\<lparr>file' = Some 1, pageNo = 1, frameNo = 0, pinCnt = 0,
          dirty = True, valid = True, refbit = True\<rparr>],
      bufPool = [\<lparr>page_number = 1, contents = ''new''\<rparr>],
      hashTable = [(Some 1, 1) \<mapsto> 0],
      htsize = 2,
      clockHand = 0,
      disk = [(1, 1) \<mapsto> ''old'', (1, 2) \<mapsto> ''two''],
      ioLog = []\<rparr>"

text \<open>
  One frame, holding page 1 of file 1: not pinned, clean, its recency bit set. The file
  holds page 1 only.
\<close>

definition pool_clean :: BufMgr where
  "pool_clean =
     \<lparr>numBufs = 1,
      bufDescTable =
        [\<lparr>file' = Some 1, pageNo = 1, frameNo = 0, pinCnt = 0,
          dirty = False, valid = True, refbit = True\<rparr>],
      bufPool = [\<lparr>page_number = 1, contents = ''one''\<rparr>],
      hashTable = [(Some 1, 1) \<mapsto> 0],
      htsize = 2,
      clockHand = 0,
      disk = [(1, 1) \<mapsto> ''one''],
      ioLog = []\<rparr>"



text \<open>The manager that \<open>BufMgr(1)\<close> makes, over the files of \<open>pool_clean\<close>.\<close>

definition pool_made :: BufMgr where
  "pool_made =
     \<lparr>numBufs = 1,
      bufDescTable =
        [\<lparr>file' = None, pageNo = INVALID_NUMBER, frameNo = 0, pinCnt = 0,
          dirty = False, valid = False, refbit = False\<rparr>],
      bufPool = [empty_Page],
      hashTable = Map.empty,
      htsize = 2,
      clockHand = 0,
      disk = disk pool_clean,
      ioLog = []\<rparr>"



section \<open>The eviction scan\<close>

subsection \<open>One iteration\<close>

lemma map_unref_update:
  "map unref (xs[h := (xs ! h)\<lparr>refbit := b\<rparr>]) = map unref xs"
  by (cases "h < length xs") (auto simp add: list_eq_iff_nth_eq nth_list_update unref_def)

lemma advanceClock_zero: "numBufs s = 0 \<Longrightarrow> advanceClock s = Inl UndefinedBehaviour"
  by (simp add: advanceClock_def)

lemma advanceClock_pos: "0 < numBufs s \<Longrightarrow> advanceClock s = Inr (s\<lparr>clockHand := nextHand s\<rparr>)"
  by (simp add: advanceClock_def nextHand_def)

lemma nextHand_less: "0 < numBufs s \<Longrightarrow> nextHand s < numBufs s"
  by (simp add: nextHand_def)

lemma body_zero:
  "numBufs s = 0 \<Longrightarrow> allocBuf_body s pc = Leave (Inl UndefinedBehaviour) s"
  by (simp add: allocBuf_body_def advanceClock_zero)

lemma body_exceeded:
  "0 < numBufs s \<Longrightarrow> pc = numBufs s \<Longrightarrow>
   allocBuf_body s pc = Leave (Inl BufferExceededException) (s\<lparr>clockHand := nextHand s\<rparr>)"
  by (simp add: allocBuf_body_def advanceClock_pos Let_def)

lemma body_free:
  "0 < numBufs s \<Longrightarrow> pc \<noteq> numBufs s \<Longrightarrow> \<not> valid (bufDescTable s ! nextHand s) \<Longrightarrow>
   allocBuf_body s pc =
     Leave (Inr (nextHand s))
       (s\<lparr>clockHand := nextHand s,
          bufDescTable := (bufDescTable s)[nextHand s := BufDesc_Clear (bufDescTable s ! nextHand s)]\<rparr>)"
  by (simp add: allocBuf_body_def advanceClock_pos Let_def)

lemma body_pinned:
  "0 < numBufs s \<Longrightarrow> pc \<noteq> numBufs s \<Longrightarrow> valid (bufDescTable s ! nextHand s) \<Longrightarrow>
   0 < pinCnt (bufDescTable s ! nextHand s) \<Longrightarrow>
   allocBuf_body s pc = Continue (s\<lparr>clockHand := nextHand s\<rparr>) ((pc + 1) mod 4294967296)"
  by (simp add: allocBuf_body_def advanceClock_pos Let_def)

lemma body_refbit:
  "0 < numBufs s \<Longrightarrow> pc \<noteq> numBufs s \<Longrightarrow> valid (bufDescTable s ! nextHand s) \<Longrightarrow>
   pinCnt (bufDescTable s ! nextHand s) = 0 \<Longrightarrow> refbit (bufDescTable s ! nextHand s) \<Longrightarrow>
   allocBuf_body s pc =
     Continue (s\<lparr>clockHand := nextHand s,
                 bufDescTable := (bufDescTable s)
                   [nextHand s := (bufDescTable s ! nextHand s)\<lparr>refbit := False\<rparr>]\<rparr>) pc"
  by (simp add: allocBuf_body_def advanceClock_pos Let_def)

lemma body_clean:
  "0 < numBufs s \<Longrightarrow> pc \<noteq> numBufs s \<Longrightarrow> valid (bufDescTable s ! nextHand s) \<Longrightarrow>
   pinCnt (bufDescTable s ! nextHand s) = 0 \<Longrightarrow> \<not> refbit (bufDescTable s ! nextHand s) \<Longrightarrow>
   \<not> dirty (bufDescTable s ! nextHand s) \<Longrightarrow>
   allocBuf_body s pc =
     Leave (Inr (nextHand s))
       (s\<lparr>clockHand := nextHand s,
          hashTable := hash_remove (hashTable s) (file' (bufDescTable s ! nextHand s))
                         (pageNo (bufDescTable s ! nextHand s)),
          bufDescTable := (bufDescTable s)[nextHand s := BufDesc_Clear (bufDescTable s ! nextHand s)]\<rparr>)"
  by (simp add: allocBuf_body_def advanceClock_pos Let_def)

lemma body_dirty:
  "0 < numBufs s \<Longrightarrow> pc \<noteq> numBufs s \<Longrightarrow> valid (bufDescTable s ! nextHand s) \<Longrightarrow>
   pinCnt (bufDescTable s ! nextHand s) = 0 \<Longrightarrow> \<not> refbit (bufDescTable s ! nextHand s) \<Longrightarrow>
   dirty (bufDescTable s ! nextHand s) \<Longrightarrow>
   allocBuf_body s pc =
     (case file_writePage (s\<lparr>clockHand := nextHand s\<rparr>) (file' (bufDescTable s ! nextHand s))
             (bufPool s ! nextHand s) of
        (Inl e, s2) \<Rightarrow> Leave (Inl e) s2
      | (Inr u, s2) \<Rightarrow>
          Leave (Inr (nextHand s))
            (s2\<lparr>hashTable := hash_remove (hashTable s2) (file' (bufDescTable s ! nextHand s))
                                (pageNo (bufDescTable s ! nextHand s)),
                bufDescTable := (bufDescTable s2)
                  [nextHand s := BufDesc_Clear (bufDescTable s ! nextHand s)]\<rparr>))"
  by (simp add: allocBuf_body_def advanceClock_pos Let_def)




lemma allocBuf_loop_induct [consumes 1, case_names Leave Continue]:
  assumes "allocBuf_loop s pc n = Some y"
    and "\<And>s pc n r s'. allocBuf_body s pc = Leave r s' \<Longrightarrow> P s pc n (r, s', Suc n)"
    and "\<And>s pc n s1 pc1 y. allocBuf_body s pc = Continue s1 pc1 \<Longrightarrow> P s1 pc1 (Suc n) y \<Longrightarrow> P s pc n y"
  shows "P s pc n y"
proof (rule allocBuf_loop.raw_induct [where P = P, OF _ assms(1)])
  fix loop :: "BufMgr \<Rightarrow> nat \<Rightarrow> nat \<Rightarrow> ((error + FrameId) \<times> BufMgr \<times> nat) option"
    and s pc n y
  assume IH: "\<And>s pc n y. loop s pc n = Some y \<Longrightarrow> P s pc n y"
  assume unfolded:
    "(case allocBuf_body s pc of
        Leave r s' \<Rightarrow> Some (r, s', Suc n)
      | Continue s' pcount' \<Rightarrow> loop s' pcount' (Suc n)) = Some y"
  show "P s pc n y"
  proof (cases "allocBuf_body s pc")
    case (Leave r s')
    with unfolded have "y = (r, s', Suc n)" by simp
    with Leave assms(2) show ?thesis by simp
  next
    case (Continue s1 pc1)
    with unfolded have "loop s1 pc1 (Suc n) = Some y" by simp
    then have "P s1 pc1 (Suc n) y" by (rule IH)
    with Continue show ?thesis by (rule assms(3))
  qed
qed

lemma body_Continue_cases:
  assumes "allocBuf_body s pc = Continue s1 pc1"
  shows "0 < numBufs s \<and> pc \<noteq> numBufs s \<and> valid (bufDescTable s ! nextHand s) \<and>
     ((0 < pinCnt (bufDescTable s ! nextHand s) \<and> s1 = s\<lparr>clockHand := nextHand s\<rparr> \<and>
        pc1 = (pc + 1) mod 4294967296) \<or>
      (pinCnt (bufDescTable s ! nextHand s) = 0 \<and> refbit (bufDescTable s ! nextHand s) \<and>
        s1 = s\<lparr>clockHand := nextHand s,
               bufDescTable := (bufDescTable s)
                 [nextHand s := (bufDescTable s ! nextHand s)\<lparr>refbit := False\<rparr>]\<rparr> \<and>
        pc1 = pc))"
proof -
  let ?d = "bufDescTable s ! nextHand s"
  have pos: "0 < numBufs s" using assms body_zero[of s pc] by (cases "numBufs s = 0") auto
  have ne: "pc \<noteq> numBufs s" using assms pos body_exceeded[of s pc] by auto
  have v: "valid ?d" using assms pos ne body_free[of s pc] by auto
  show ?thesis
  proof (cases "0 < pinCnt ?d")
    case True
    with assms pos ne v body_pinned[of s pc] show ?thesis by auto
  next
    case False
    then have p0: "pinCnt ?d = 0" by simp
    show ?thesis
    proof (cases "refbit ?d")
      case True
      with assms pos ne v p0 body_refbit[of s pc] show ?thesis by auto
    next
      case False
      show ?thesis
      proof (cases "dirty ?d")
        case True
        with assms pos ne v p0 \<open>\<not> refbit ?d\<close> body_dirty[of s pc] show ?thesis
          by (auto split: prod.splits sum.splits)
      next
        case False
        with assms pos ne v p0 \<open>\<not> refbit ?d\<close> body_clean[of s pc] show ?thesis by auto
      qed
    qed
  qed
qed

lemma body_Continue_view:
  assumes "allocBuf_body s pc = Continue s1 pc1"
  shows "scan_view s1 = scan_view s"
  using body_Continue_cases[OF assms]
  by (auto simp: scan_view_def map_unref_update)

lemma loop_last:
  assumes "allocBuf_loop s pc n = Some (r, s', n')"
  shows "\<exists>s0 pc0. scan_view s0 = scan_view s \<and> allocBuf_body s0 pc0 = Leave r s' \<and> n < n'"
proof -
  have "\<exists>s0 pc0. scan_view s0 = scan_view s \<and>
          allocBuf_body s0 pc0 = Leave (fst (r, s', n')) (fst (snd (r, s', n'))) \<and> n < snd (snd (r, s', n'))"
    using assms
  proof (induct rule: allocBuf_loop_induct)
    case (Leave s pc n r s')
    then show ?case by auto
  next
    case (Continue s pc n s1 pc1 y)
    then show ?case using body_Continue_view[of s pc s1 pc1] by (metis Suc_lessD)
  qed
  then show ?thesis by simp
qed

lemma body_Leave_cases [consumes 1, case_names NoFrames Exceeded Free Clean Dirty WriteFailed NullFile]:
  assumes "allocBuf_body s pc = Leave r s'"
  obtains
    (NoFrames) "numBufs s = 0" "r = Inl UndefinedBehaviour" "s' = s"
  | (Exceeded) "0 < numBufs s" "pc = numBufs s" "r = Inl BufferExceededException"
      "s' = s\<lparr>clockHand := nextHand s\<rparr>"
  | (Free) "0 < numBufs s" "pc \<noteq> numBufs s" "\<not> valid (bufDescTable s ! nextHand s)"
      "r = Inr (nextHand s)"
      "s' = s\<lparr>clockHand := nextHand s,
              bufDescTable := (bufDescTable s)[nextHand s := BufDesc_Clear (bufDescTable s ! nextHand s)]\<rparr>"
  | (Clean) "0 < numBufs s" "pc \<noteq> numBufs s" "valid (bufDescTable s ! nextHand s)"
      "pinCnt (bufDescTable s ! nextHand s) = 0" "\<not> refbit (bufDescTable s ! nextHand s)"
      "\<not> dirty (bufDescTable s ! nextHand s)" "r = Inr (nextHand s)"
      "s' = s\<lparr>clockHand := nextHand s,
              hashTable := hash_remove (hashTable s) (file' (bufDescTable s ! nextHand s))
                             (pageNo (bufDescTable s ! nextHand s)),
              bufDescTable := (bufDescTable s)[nextHand s := BufDesc_Clear (bufDescTable s ! nextHand s)]\<rparr>"
  | (Dirty) f c where "0 < numBufs s" "pc \<noteq> numBufs s" "valid (bufDescTable s ! nextHand s)"
      "pinCnt (bufDescTable s ! nextHand s) = 0" "\<not> refbit (bufDescTable s ! nextHand s)"
      "dirty (bufDescTable s ! nextHand s)" "file' (bufDescTable s ! nextHand s) = Some f"
      "disk s (f, page_number (bufPool s ! nextHand s)) = Some c" "r = Inr (nextHand s)"
      "s' = s\<lparr>clockHand := nextHand s,
              ioLog := ioLog s @ [IoWrite f (bufPool s ! nextHand s)],
              disk := (disk s)((f, page_number (bufPool s ! nextHand s)) \<mapsto>
                        contents (bufPool s ! nextHand s)),
              hashTable := hash_remove (hashTable s) (Some f) (pageNo (bufDescTable s ! nextHand s)),
              bufDescTable := (bufDescTable s)[nextHand s := BufDesc_Clear (bufDescTable s ! nextHand s)]\<rparr>"
  | (WriteFailed) f where "0 < numBufs s" "pc \<noteq> numBufs s" "valid (bufDescTable s ! nextHand s)"
      "pinCnt (bufDescTable s ! nextHand s) = 0" "\<not> refbit (bufDescTable s ! nextHand s)"
      "dirty (bufDescTable s ! nextHand s)" "file' (bufDescTable s ! nextHand s) = Some f"
      "disk s (f, page_number (bufPool s ! nextHand s)) = None" "r = Inl IOError"
      "s' = s\<lparr>clockHand := nextHand s, ioLog := ioLog s @ [IoWrite f (bufPool s ! nextHand s)]\<rparr>"
  | (NullFile) "0 < numBufs s" "pc \<noteq> numBufs s" "valid (bufDescTable s ! nextHand s)"
      "pinCnt (bufDescTable s ! nextHand s) = 0" "\<not> refbit (bufDescTable s ! nextHand s)"
      "dirty (bufDescTable s ! nextHand s)" "file' (bufDescTable s ! nextHand s) = None"
      "r = Inl UndefinedBehaviour" "s' = s\<lparr>clockHand := nextHand s\<rparr>"
proof -
  let ?d = "bufDescTable s ! nextHand s"
  show thesis
  proof (cases "numBufs s = 0")
    case True
    with assms body_zero[of s pc] show thesis by (intro NoFrames) auto
  next
    case False
    then have pos: "0 < numBufs s" by simp
    show thesis
    proof (cases "pc = numBufs s")
      case True
      with assms pos body_exceeded[of s pc] show thesis by (intro Exceeded) auto
    next
      case ne: False
      show thesis
      proof (cases "valid ?d")
        case False
        with assms pos ne body_free[of s pc] show thesis by (intro Free) auto
      next
        case v: True
        have p0: "pinCnt ?d = 0"
          using assms pos ne v body_pinned[of s pc] by (cases "0 < pinCnt ?d") auto
        have nr: "\<not> refbit ?d"
          using assms pos ne v p0 body_refbit[of s pc] by (cases "refbit ?d") auto
        show thesis
        proof (cases "dirty ?d")
          case False
          with assms pos ne v p0 nr body_clean[of s pc] show thesis by (intro Clean) auto
        next
          case dt: True
          note eq = body_dirty[OF pos ne v p0 nr dt]
          show thesis
          proof (cases "file' ?d")
            case None
            with assms eq show thesis
              by (intro NullFile[OF pos ne v p0 nr dt]) (auto simp: file_writePage_def)
          next
            case (Some f)
            show thesis
            proof (cases "disk s (f, page_number (bufPool s ! nextHand s))")
              case None
              with assms eq Some show thesis
                by (intro WriteFailed[OF pos ne v p0 nr dt Some]) (auto simp: file_writePage_def Let_def)
            next
              case (Some c)
              with assms eq \<open>file' ?d = Some f\<close> show thesis
                by (intro Dirty[OF pos ne v p0 nr dt \<open>file' ?d = Some f\<close> Some])
                   (auto simp: file_writePage_def Let_def)
            qed
          qed
        qed
      qed
    qed
  qed
qed

subsection \<open>The scan ends\<close>














section \<open>Properties of allocBuf\<close>

lemma scan_view_fields:
  assumes "scan_view a = scan_view b"
  shows "numBufs a = numBufs b" "bufPool a = bufPool b" "hashTable a = hashTable b"
    "htsize a = htsize b" "disk a = disk b" "ioLog a = ioLog b"
    "map unref (bufDescTable a) = map unref (bufDescTable b)"
  using arg_cong[OF assms, of numBufs] arg_cong[OF assms, of bufPool]
    arg_cong[OF assms, of hashTable] arg_cong[OF assms, of htsize]
    arg_cong[OF assms, of disk] arg_cong[OF assms, of ioLog]
    arg_cong[OF assms, of bufDescTable]
  by (simp_all add: scan_view_def)

lemma unref_fields:
  assumes "unref d = unref e"
  shows "valid d = valid e" "pinCnt d = pinCnt e" "dirty d = dirty e" "file' d = file' e"
    "pageNo d = pageNo e" "frameNo d = frameNo e"
  using arg_cong[OF assms, of valid] arg_cong[OF assms, of pinCnt] arg_cong[OF assms, of dirty]
    arg_cong[OF assms, of file'] arg_cong[OF assms, of pageNo] arg_cong[OF assms, of frameNo]
  by (simp_all add: unref_def)

lemma map_unref_nth:
  assumes "map unref xs = map unref ys" "i < length ys"
  shows "unref (xs ! i) = unref (ys ! i)"
proof -
  have "length xs = length ys" using assms(1) by (rule map_eq_imp_length_eq)
  with assms(2) have "map unref xs ! i = unref (xs ! i)" "map unref ys ! i = unref (ys ! i)"
    by simp_all
  with assms(1) show ?thesis by simp
qed

lemma Clear_unref: "unref d = unref e \<Longrightarrow> BufDesc_Clear d = BufDesc_Clear e"
proof -
  assume "unref d = unref e"
  then have "BufDesc_Clear (unref d) = BufDesc_Clear (unref e)" by simp
  then show ?thesis by (simp add: unref_def BufDesc_Clear_def)
qed




lemma allocBuf_last:
  assumes "allocBuf s = Some (r, s', n)" and "length (bufDescTable s) = numBufs s"
  obtains s0 pc0 where "scan_view s0 = scan_view s" "allocBuf_body s0 pc0 = Leave r s'"
    "numBufs s0 = numBufs s" "bufPool s0 = bufPool s" "hashTable s0 = hashTable s"
    "disk s0 = disk s" "ioLog s0 = ioLog s" "length (bufDescTable s0) = numBufs s"
    "\<And>i. i < numBufs s \<Longrightarrow> unref (bufDescTable s0 ! i) = unref (bufDescTable s ! i)"
proof -
  from assms(1) loop_last[of s 0 0 r s' n] obtain s0 pc0
    where view: "scan_view s0 = scan_view s" and leave: "allocBuf_body s0 pc0 = Leave r s'"
    by (auto simp: allocBuf_def)
  note v = scan_view_fields[OF view]
  have "length (bufDescTable s0) = numBufs s"
    using map_eq_imp_length_eq[OF v(7)] assms(2) by simp
  moreover have "unref (bufDescTable s0 ! i) = unref (bufDescTable s ! i)" if "i < numBufs s" for i
    using map_unref_nth[OF v(7)] that assms(2) by simp
  ultimately show thesis using that[OF view leave v(1,2,3,5,6)] by blast
qed

text \<open>
  Claim C1. The frame that allocBuf returns did not hold a page with a pin count above
  zero: not in the state allocBuf was called in, and not in the state \<open>s0\<close> in which
  the iteration that took the frame began, however many iterations came before. Where
  every descriptor that is not valid has pin count 0, as Clear leaves it, the pin count
  of the returned frame was 0.
\<close>

theorem allocBuf_spares_pinned:
  assumes "allocBuf s = Some (Inr fr, s', n)" and "length (bufDescTable s) = numBufs s"
  shows "fr < numBufs s \<and>
    \<not> (valid (bufDescTable s ! fr) \<and> 0 < pinCnt (bufDescTable s ! fr)) \<and>
    (\<exists>s0 pc0. scan_view s0 = scan_view s \<and> allocBuf_body s0 pc0 = Leave (Inr fr) s' \<and>
       \<not> (valid (bufDescTable s0 ! fr) \<and> 0 < pinCnt (bufDescTable s0 ! fr))) \<and>
    ((\<forall>i<numBufs s. \<not> valid (bufDescTable s ! i) \<longrightarrow> pinCnt (bufDescTable s ! i) = 0) \<longrightarrow>
       pinCnt (bufDescTable s ! fr) = 0)"
proof -
  obtain s0 pc0 where view: "scan_view s0 = scan_view s"
    and leave: "allocBuf_body s0 pc0 = Leave (Inr fr) s'"
    and nb: "numBufs s0 = numBufs s"
    and un: "\<And>i. i < numBufs s \<Longrightarrow> unref (bufDescTable s0 ! i) = unref (bufDescTable s ! i)"
    by (rule allocBuf_last[OF assms]) blast
  from leave have at: "fr = nextHand s0 \<and> 0 < numBufs s0 \<and>
      \<not> (valid (bufDescTable s0 ! fr) \<and> 0 < pinCnt (bufDescTable s0 ! fr))"
    by (cases rule: body_Leave_cases) auto
  then have fr: "fr < numBufs s" using nextHand_less[of s0] nb by simp
  note u = unref_fields[OF un[OF fr]]
  from at fr u(1,2) view leave show ?thesis by auto
qed

text \<open>
  Claim C7. When allocBuf returns a frame that held a page, the page was not pinned;
  the index entry of the page is removed and the descriptor cleared. If the page was
  dirty, exactly one call was made on its file, writing the page of that frame, and
  the file now holds its contents; if it was clean, no call was made. The write comes
  first: when it fails, allocBuf throws with the index and the descriptors as they were
  (recency bits apart).
\<close>

theorem allocBuf_writes_back_dirty_victim:
  assumes "allocBuf s = Some (r, s', n)" and "length (bufDescTable s) = numBufs s"
  shows "(\<forall>fr. r = Inr fr \<and> valid (bufDescTable s ! fr) \<longrightarrow>
            pinCnt (bufDescTable s ! fr) = 0 \<and>
            bufDescTable s' ! fr = BufDesc_Clear (bufDescTable s ! fr) \<and>
            hashTable s' = hash_remove (hashTable s) (file' (bufDescTable s ! fr))
                             (pageNo (bufDescTable s ! fr)) \<and>
            (if dirty (bufDescTable s ! fr)
             then \<exists>f. file' (bufDescTable s ! fr) = Some f \<and>
                    disk s (f, page_number (bufPool s ! fr)) \<noteq> None \<and>
                    ioLog s' = ioLog s @ [IoWrite f (bufPool s ! fr)] \<and>
                    disk s' = (disk s)((f, page_number (bufPool s ! fr)) \<mapsto> contents (bufPool s ! fr))
             else ioLog s' = ioLog s \<and> disk s' = disk s)) \<and>
         (r = Inl IOError \<longrightarrow>
            hashTable s' = hashTable s \<and> disk s' = disk s \<and>
            map unref (bufDescTable s') = map unref (bufDescTable s) \<and>
            (\<exists>f pg. ioLog s' = ioLog s @ [IoWrite f pg]))"
proof -
  obtain s0 pc0 where view: "scan_view s0 = scan_view s"
    and leave: "allocBuf_body s0 pc0 = Leave r s'"
    and eqs: "numBufs s0 = numBufs s" "bufPool s0 = bufPool s" "hashTable s0 = hashTable s"
      "disk s0 = disk s" "ioLog s0 = ioLog s"
    and len: "length (bufDescTable s0) = numBufs s"
    and un: "\<And>i. i < numBufs s \<Longrightarrow> unref (bufDescTable s0 ! i) = unref (bufDescTable s ! i)"
    by (rule allocBuf_last[OF assms]) blast
  let ?h = "nextHand s0"
  have h: "?h < numBufs s" if "0 < numBufs s0" using nextHand_less[OF that] eqs(1) by simp
  from leave show ?thesis
  proof (cases rule: body_Leave_cases)
    case NoFrames
    then show ?thesis by simp
  next
    case Exceeded
    then show ?thesis by simp
  next
    case Free
    note u = unref_fields[OF un[OF h[OF Free(1)]]]
    from Free u(1) show ?thesis by simp
  next
    case Clean
    note hh = h[OF Clean(1)]
    note u = unref_fields[OF un[OF hh]]
    note c = Clear_unref[OF un[OF hh]]
    from Clean(3-6) show ?thesis
      unfolding Clean(7,8) u c using hh len eqs by simp
  next
    case (Dirty f c)
    note hh = h[OF Dirty(1)]
    note u = unref_fields[OF un[OF hh]]
    note c = Clear_unref[OF un[OF hh]]
    from Dirty(3-8) show ?thesis
      unfolding Dirty(9,10) u c using hh len eqs by simp
  next
    case (WriteFailed f)
    have "map unref (bufDescTable s0) = map unref (bufDescTable s)"
      using scan_view_fields(7)[OF view] .
    with WriteFailed(9,10) eqs show ?thesis by simp
  next
    case NullFile
    then show ?thesis by simp
  qed
qed

subsection \<open>The properties on the example pools\<close>

lemmas scan_eval = allocBuf_def allocBuf_loop.simps allocBuf_body_def advanceClock_def Let_def
  file_writePage_def hash_remove_def BufDesc_Clear_def

theorem allocBuf_spares_pinned_witness:
  "length (bufDescTable pool_mixed) = numBufs pool_mixed \<and>
   0 < pinCnt (bufDescTable pool_mixed ! 0) \<and>
   (\<exists>s' n. allocBuf pool_mixed = Some (Inr 1, s', n)) \<and>
   \<not> (valid (bufDescTable pool_mixed ! 1) \<and> 0 < pinCnt (bufDescTable pool_mixed ! 1)) \<and>
   pinCnt (bufDescTable pool_mixed ! 1) = 0"
proof -
  have len: "length (bufDescTable pool_mixed) = numBufs pool_mixed" by (simp add: pool_mixed_def)
  have "\<exists>s' n. allocBuf pool_mixed = Some (Inr 1, s', n)"
    by (simp add: pool_mixed_def scan_eval)
  then obtain s' n where run: "allocBuf pool_mixed = Some (Inr 1, s', n)" by blast
  have pin: "0 < pinCnt (bufDescTable pool_mixed ! 0)" by (simp add: pool_mixed_def)
  have "\<forall>i<numBufs pool_mixed. \<not> valid (bufDescTable pool_mixed ! i) \<longrightarrow>
      pinCnt (bufDescTable pool_mixed ! i) = 0"
    by (simp add: pool_mixed_def numeral_2_eq_2 less_Suc_eq)
  with allocBuf_spares_pinned[OF run len] pin len run show ?thesis by blast
qed

theorem allocBuf_writes_back_dirty_victim_witness:
  "length (bufDescTable pool_dirty) = numBufs pool_dirty \<and>
   valid (bufDescTable pool_dirty ! 0) \<and> dirty (bufDescTable pool_dirty ! 0) \<and>
   (\<exists>s' n. allocBuf pool_dirty = Some (Inr 0, s', n) \<and>
      ioLog s' = [IoWrite 1 \<lparr>page_number = 1, contents = ''new''\<rparr>] \<and>
      disk s' (1, 1) = Some ''new'' \<and> hashTable s' (Some 1, 1) = None \<and>
      \<not> valid (bufDescTable s' ! 0))"
proof -
  have len: "length (bufDescTable pool_dirty) = numBufs pool_dirty" by (simp add: pool_dirty_def)
  have vd: "valid (bufDescTable pool_dirty ! 0)" "dirty (bufDescTable pool_dirty ! 0)"
    by (simp_all add: pool_dirty_def)
  have "\<exists>s' n. allocBuf pool_dirty = Some (Inr 0, s', n)"
    by (simp add: pool_dirty_def scan_eval)
  then obtain s' n where run: "allocBuf pool_dirty = Some (Inr 0, s', n)" by blast
  from allocBuf_writes_back_dirty_victim[OF run len] vd
  have "ioLog s' = [IoWrite 1 \<lparr>page_number = 1, contents = ''new''\<rparr>] \<and>
      disk s' (1, 1) = Some ''new'' \<and> hashTable s' (Some 1, 1) = None \<and>
      \<not> valid (bufDescTable s' ! 0)"
    by (simp add: pool_dirty_def hash_remove_def BufDesc_Clear_def)
  with len vd run show ?thesis by blast
qed

section \<open>unPinPage\<close>

text \<open>
  Claim C6. unPinPage on a page that the index does not hold returns without an error
  and leaves the state as it is. On a page held in frame \<open>fr\<close> with pin count 0 it
  throws PageNotPinnedException and leaves the state as it is. Otherwise it takes one
  from the pin count of that frame, sets the dirty flag when \<open>isDirty\<close> is true and
  leaves the flag as it was when \<open>isDirty\<close> is false; nothing else changes.
\<close>

theorem unPinPage_cases:
  "(hashTable s (Some f, p) = None \<longrightarrow> unPinPage s f p b = (Inr (), s)) \<and>
   (\<forall>fr. hashTable s (Some f, p) = Some fr \<and> fr < numBufs s \<and>
         length (bufDescTable s) = numBufs s \<longrightarrow>
      (pinCnt (bufDescTable s ! fr) = 0 \<longrightarrow> unPinPage s f p b = (Inl PageNotPinnedException, s)) \<and>
      (0 < pinCnt (bufDescTable s ! fr) \<longrightarrow>
         (\<exists>s'. unPinPage s f p b = (Inr (), s') \<and>
            s' = s\<lparr>bufDescTable := (bufDescTable s)
                   [fr := (bufDescTable s ! fr)
                      \<lparr>dirty := dirty (bufDescTable s ! fr) \<or> b,
                       pinCnt := pinCnt (bufDescTable s ! fr) - 1\<rparr>]\<rparr> \<and>
            pinCnt (bufDescTable s' ! fr) + 1 = pinCnt (bufDescTable s ! fr) \<and>
            dirty (bufDescTable s' ! fr) = (dirty (bufDescTable s ! fr) \<or> b))))"
proof -
  have miss: "unPinPage s f p b = (Inr (), s)" if "hashTable s (Some f, p) = None"
    using that by (simp add: unPinPage_def hash_lookup_def)
  have unpinned: "unPinPage s f p b = (Inl PageNotPinnedException, s)"
    if "hashTable s (Some f, p) = Some fr" "fr < numBufs s" "pinCnt (bufDescTable s ! fr) = 0"
    for fr
    using that by (simp add: unPinPage_def hash_lookup_def)
  have pinned: "\<exists>s'. unPinPage s f p b = (Inr (), s') \<and>
            s' = s\<lparr>bufDescTable := (bufDescTable s)
                   [fr := (bufDescTable s ! fr)
                      \<lparr>dirty := dirty (bufDescTable s ! fr) \<or> b,
                       pinCnt := pinCnt (bufDescTable s ! fr) - 1\<rparr>]\<rparr> \<and>
            pinCnt (bufDescTable s' ! fr) + 1 = pinCnt (bufDescTable s ! fr) \<and>
            dirty (bufDescTable s' ! fr) = (dirty (bufDescTable s ! fr) \<or> b)"
    if "hashTable s (Some f, p) = Some fr" "fr < numBufs s"
      "length (bufDescTable s) = numBufs s" "0 < pinCnt (bufDescTable s ! fr)"
    for fr
    using that by (cases b) (simp_all add: unPinPage_def hash_lookup_def Let_def)
  from miss unpinned pinned show ?thesis by blast
qed

theorem unPinPage_cases_witness:
  "hashTable pool_mixed (Some 1, 9) = None \<and> unPinPage pool_mixed 1 9 True = (Inr (), pool_mixed) \<and>
   hashTable pool_mixed (Some 1, 6) = Some 1 \<and> pinCnt (bufDescTable pool_mixed ! 1) = 0 \<and>
   unPinPage pool_mixed 1 6 True = (Inl PageNotPinnedException, pool_mixed) \<and>
   hashTable pool_pinned (Some 1, 5) = Some 0 \<and> pinCnt (bufDescTable pool_pinned ! 0) = 1 \<and>
   (\<exists>s'. unPinPage pool_pinned 1 5 True = (Inr (), s') \<and> pinCnt (bufDescTable s' ! 0) = 0 \<and>
      dirty (bufDescTable s' ! 0)) \<and>
   (\<exists>s'. unPinPage pool_mixed 1 5 False = (Inr (), s') \<and> pinCnt (bufDescTable s' ! 0) = 1 \<and>
      dirty (bufDescTable s' ! 0))"
proof -
  have a: "hashTable pool_mixed (Some 1, 9) = None" by (simp add: pool_mixed_def)
  have b: "hashTable pool_mixed (Some 1, 6) = Some 1 \<and> 1 < numBufs pool_mixed \<and>
      length (bufDescTable pool_mixed) = numBufs pool_mixed"
    "pinCnt (bufDescTable pool_mixed ! 1) = 0"
    by (simp_all add: pool_mixed_def)
  have c: "hashTable pool_pinned (Some 1, 5) = Some 0 \<and> 0 < numBufs pool_pinned \<and>
      length (bufDescTable pool_pinned) = numBufs pool_pinned"
    "pinCnt (bufDescTable pool_pinned ! 0) = 1"
    by (simp_all add: pool_pinned_def)
  have d: "hashTable pool_mixed (Some 1, 5) = Some 0 \<and> 0 < numBufs pool_mixed \<and>
      length (bufDescTable pool_mixed) = numBufs pool_mixed"
    "pinCnt (bufDescTable pool_mixed ! 0) = 2" "dirty (bufDescTable pool_mixed ! 0)"
    by (simp_all add: pool_mixed_def)
  from unPinPage_cases[of pool_mixed 1 9 True] a
  have 1: "unPinPage pool_mixed 1 9 True = (Inr (), pool_mixed)" by blast
  from unPinPage_cases[of pool_mixed 1 6 True] b
  have 2: "unPinPage pool_mixed 1 6 True = (Inl PageNotPinnedException, pool_mixed)" by blast
  from unPinPage_cases[of pool_pinned 1 5 True] c
  have 3: "\<exists>s'. unPinPage pool_pinned 1 5 True = (Inr (), s') \<and> pinCnt (bufDescTable s' ! 0) = 0 \<and>
      dirty (bufDescTable s' ! 0)" by fastforce
  from unPinPage_cases[of pool_mixed 1 5 False] d
  have 4: "\<exists>s'. unPinPage pool_mixed 1 5 False = (Inr (), s') \<and> pinCnt (bufDescTable s' ! 0) = 1 \<and>
      dirty (bufDescTable s' ! 0)" by fastforce
  from a b c 1 2 3 4 show ?thesis by blast
qed

section \<open>What allocBuf does to the state\<close>

lemma unref_Clear: "unref (BufDesc_Clear d) = BufDesc_Clear d"
  by (simp add: BufDesc_Clear_def unref_def)

lemma allocBuf_effect:
  assumes "allocBuf s = Some (r, s', n)" and "length (bufDescTable s) = numBufs s"
  shows "numBufs s' = numBufs s" "length (bufDescTable s') = numBufs s"
    "bufPool s' = bufPool s" "htsize s' = htsize s" "dom (disk s') = dom (disk s)"
    "\<And>e. r = Inl e \<Longrightarrow>
       map unref (bufDescTable s') = map unref (bufDescTable s) \<and> hashTable s' = hashTable s"
    "\<And>fr. r = Inr fr \<Longrightarrow>
       fr < numBufs s \<and> clockHand s' = fr \<and>
       map unref (bufDescTable s') = (map unref (bufDescTable s))[fr := BufDesc_Clear (bufDescTable s ! fr)] \<and>
       hashTable s' =
         (if valid (bufDescTable s ! fr)
          then hash_remove (hashTable s) (file' (bufDescTable s ! fr)) (pageNo (bufDescTable s ! fr))
          else hashTable s)"
proof -
  obtain s0 pc0 where view: "scan_view s0 = scan_view s"
    and leave: "allocBuf_body s0 pc0 = Leave r s'"
    and eqs: "numBufs s0 = numBufs s" "bufPool s0 = bufPool s" "hashTable s0 = hashTable s"
      "disk s0 = disk s" "ioLog s0 = ioLog s"
    and len: "length (bufDescTable s0) = numBufs s"
    and un: "\<And>i. i < numBufs s \<Longrightarrow> unref (bufDescTable s0 ! i) = unref (bufDescTable s ! i)"
    by (rule allocBuf_last[OF assms]) blast
  note v = scan_view_fields[OF view]
  let ?h = "nextHand s0"
  have h: "?h < numBufs s" if "0 < numBufs s0" using nextHand_less[OF that] eqs(1) by simp
  have upd: "map unref ((bufDescTable s0)[?h := BufDesc_Clear (bufDescTable s0 ! ?h)]) =
      (map unref (bufDescTable s))[?h := BufDesc_Clear (bufDescTable s ! ?h)]" if "0 < numBufs s0"
    using Clear_unref[OF un[OF h[OF that]]] v(7) by (simp add: map_update unref_Clear)
  have all: "numBufs s' = numBufs s \<and> length (bufDescTable s') = numBufs s \<and>
    bufPool s' = bufPool s \<and> htsize s' = htsize s \<and> dom (disk s') = dom (disk s) \<and>
    (\<forall>e. r = Inl e \<longrightarrow>
       map unref (bufDescTable s') = map unref (bufDescTable s) \<and> hashTable s' = hashTable s) \<and>
    (\<forall>fr. r = Inr fr \<longrightarrow>
       fr < numBufs s \<and> clockHand s' = fr \<and>
       map unref (bufDescTable s') = (map unref (bufDescTable s))[fr := BufDesc_Clear (bufDescTable s ! fr)] \<and>
       hashTable s' =
         (if valid (bufDescTable s ! fr)
          then hash_remove (hashTable s) (file' (bufDescTable s ! fr)) (pageNo (bufDescTable s ! fr))
          else hashTable s))"
    using leave
  proof (cases rule: body_Leave_cases)
    case NoFrames
    with eqs len v show ?thesis by simp
  next
    case Exceeded
    with eqs len v show ?thesis by simp
  next
    case Free
    note u = unref_fields[OF un[OF h[OF Free(1)]]]
    from Free(3) show ?thesis
      unfolding Free(4,5) u using eqs len v(4) h[OF Free(1)] upd[OF Free(1)] by simp
  next
    case Clean
    note u = unref_fields[OF un[OF h[OF Clean(1)]]]
    from Clean(3) show ?thesis
      unfolding Clean(7,8) u using eqs len v(4) h[OF Clean(1)] upd[OF Clean(1)] by simp
  next
    case (Dirty f c)
    note u = unref_fields[OF un[OF h[OF Dirty(1)]]]
    have "dom ((disk s)((f, page_number (bufPool s ! ?h)) \<mapsto> contents (bufPool s ! ?h))) = dom (disk s)"
      using Dirty(8) eqs by auto
    with Dirty(3,7) show ?thesis
      unfolding Dirty(9,10) u using eqs len v(4) h[OF Dirty(1)] upd[OF Dirty(1)] by simp
  next
    case (WriteFailed f)
    with eqs len v show ?thesis by simp
  next
    case NullFile
    with eqs len v show ?thesis by simp
  qed
  from all show "numBufs s' = numBufs s" "length (bufDescTable s') = numBufs s"
    "bufPool s' = bufPool s" "htsize s' = htsize s" "dom (disk s') = dom (disk s)"
    by simp_all
  from all show "\<And>e. r = Inl e \<Longrightarrow>
       map unref (bufDescTable s') = map unref (bufDescTable s) \<and> hashTable s' = hashTable s"
    by simp
  from all show "\<And>fr. r = Inr fr \<Longrightarrow>
       fr < numBufs s \<and> clockHand s' = fr \<and>
       map unref (bufDescTable s') = (map unref (bufDescTable s))[fr := BufDesc_Clear (bufDescTable s ! fr)] \<and>
       hashTable s' =
         (if valid (bufDescTable s ! fr)
          then hash_remove (hashTable s) (file' (bufDescTable s ! fr)) (pageNo (bufDescTable s ! fr))
          else hashTable s)"
    by simp
qed

lemma allocBuf_frame_cleared:
  assumes "allocBuf s = Some (Inr fr, s', n)" and "length (bufDescTable s) = numBufs s"
  shows "fr < numBufs s" "bufDescTable s' ! fr = BufDesc_Clear (bufDescTable s ! fr)"
proof -
  obtain s0 pc0 where leave: "allocBuf_body s0 pc0 = Leave (Inr fr) s'"
    and len: "length (bufDescTable s0) = numBufs s" and nb: "numBufs s0 = numBufs s"
    and un: "\<And>i. i < numBufs s \<Longrightarrow> unref (bufDescTable s0 ! i) = unref (bufDescTable s ! i)"
    by (rule allocBuf_last[OF assms]) blast
  from leave have "fr = nextHand s0 \<and> 0 < numBufs s0 \<and>
      bufDescTable s' = (bufDescTable s0)[fr := BufDesc_Clear (bufDescTable s0 ! fr)]"
    by (cases rule: body_Leave_cases) auto
  then have fr: "fr < numBufs s"
    and tbl: "bufDescTable s' = (bufDescTable s0)[fr := BufDesc_Clear (bufDescTable s0 ! fr)]"
    using nextHand_less[of s0] nb by simp_all
  show "fr < numBufs s" by (rule fr)
  show "bufDescTable s' ! fr = BufDesc_Clear (bufDescTable s ! fr)"
    using tbl fr len Clear_unref[OF un[OF fr]] by simp
qed

section \<open>readPage and disposePage\<close>

lemma readPage_hit:
  assumes "hashTable s (Some f, p) = Some j"
  shows "readPage s f p =
    (if j < numBufs s then
       Some (Inr j, s\<lparr>bufDescTable := (bufDescTable s)
               [j := (bufDescTable s ! j)\<lparr>refbit := True, pinCnt := pinCnt (bufDescTable s ! j) + 1\<rparr>]\<rparr>)
     else Some (Inl UndefinedBehaviour, s))"
  using assms by (simp add: readPage_def hash_lookup_def)

lemma readPage_miss:
  assumes "hashTable s (Some f, p) = None"
  shows "readPage s f p =
    (case allocBuf s of
       None \<Rightarrow> None
     | Some (Inl e, s1, n) \<Rightarrow> Some (Inl e, s1)
     | Some (Inr i, s1, n) \<Rightarrow>
         (case disk s1 (f, p) of
            None \<Rightarrow> Some (Inl IOError, s1\<lparr>ioLog := ioLog s1 @ [IoRead f p]\<rparr>)
          | Some c \<Rightarrow>
              Some (Inr i,
                    s1\<lparr>ioLog := ioLog s1 @ [IoRead f p],
                       bufPool := (bufPool s1)[i := \<lparr>page_number = p, contents = c\<rparr>],
                       hashTable := hash_insert (hashTable s1) (Some f) p i,
                       bufDescTable := (bufDescTable s1)
                         [i := BufDesc_Set (bufDescTable s1 ! i) (Some f) p]\<rparr>)))"
  using assms
  by (simp add: readPage_def hash_lookup_def file_readPage_def Let_def
      split: option.split sum.split prod.split)

text \<open>
  Claim C5. A readPage that returns frame \<open>i\<close> has raised the pin count of the page by
  one. On a hit the frame is the one in the index, its pin count is one more than
  before, its recency bit is set, and no call is made on any file: the state differs
  in that descriptor only. On a miss the frame comes from allocBuf with pin count 0 and
  is set to valid, pin count 1, recency bit set, not dirty, owned by the file and page
  asked for, and the index maps the page to it.
\<close>

theorem readPage_pins_once:
  assumes "readPage s f p = Some (Inr i, s')" and "length (bufDescTable s) = numBufs s"
  shows "i < numBufs s \<and>
    (\<forall>j. hashTable s (Some f, p) = Some j \<longrightarrow>
       i = j \<and> pinCnt (bufDescTable s' ! i) = pinCnt (bufDescTable s ! i) + 1 \<and>
       refbit (bufDescTable s' ! i) \<and> ioLog s' = ioLog s \<and> disk s' = disk s \<and>
       s' = s\<lparr>bufDescTable := (bufDescTable s)
              [i := (bufDescTable s ! i)\<lparr>refbit := True, pinCnt := pinCnt (bufDescTable s ! i) + 1\<rparr>]\<rparr>) \<and>
    (hashTable s (Some f, p) = None \<longrightarrow>
       (\<exists>s1 n. allocBuf s = Some (Inr i, s1, n) \<and> pinCnt (bufDescTable s1 ! i) = 0 \<and>
          bufDescTable s' ! i = BufDesc_Set (bufDescTable s1 ! i) (Some f) p) \<and>
       valid (bufDescTable s' ! i) \<and> pinCnt (bufDescTable s' ! i) = 1 \<and>
       refbit (bufDescTable s' ! i) \<and> \<not> dirty (bufDescTable s' ! i) \<and>
       file' (bufDescTable s' ! i) = Some f \<and> pageNo (bufDescTable s' ! i) = p \<and>
       hashTable s' (Some f, p) = Some i)"
proof (cases "hashTable s (Some f, p)")
  case (Some j)
  from assms(1) readPage_hit[OF Some] have j: "j < numBufs s" "i = j"
    and s': "s' = s\<lparr>bufDescTable := (bufDescTable s)
              [j := (bufDescTable s ! j)\<lparr>refbit := True, pinCnt := pinCnt (bufDescTable s ! j) + 1\<rparr>]\<rparr>"
    by (auto split: if_splits)
  from j s' Some assms(2) show ?thesis by simp
next
  case None
  from assms(1) readPage_miss[OF None] obtain s1 n c where
    run: "allocBuf s = Some (Inr i, s1, n)" and c: "disk s1 (f, p) = Some c"
    and s': "s' = s1\<lparr>ioLog := ioLog s1 @ [IoRead f p],
                       bufPool := (bufPool s1)[i := \<lparr>page_number = p, contents = c\<rparr>],
                       hashTable := hash_insert (hashTable s1) (Some f) p i,
                       bufDescTable := (bufDescTable s1)
                         [i := BufDesc_Set (bufDescTable s1 ! i) (Some f) p]\<rparr>"
    by (auto split: option.splits sum.splits prod.splits)
  note fc = allocBuf_frame_cleared[OF run assms(2)]
  note e = allocBuf_effect(2)[OF run assms(2)]
  have "pinCnt (bufDescTable s1 ! i) = 0" using fc(2) by (simp add: BufDesc_Clear_def)
  with run s' fc(1) e None show ?thesis
    by (simp add: BufDesc_Set_def hash_insert_def)
qed

theorem readPage_pins_once_witness:
  "length (bufDescTable pool_pinned) = numBufs pool_pinned \<and>
   hashTable pool_pinned (Some 1, 5) = Some 0 \<and> pinCnt (bufDescTable pool_pinned ! 0) = 1 \<and>
   (\<exists>s'. readPage pool_pinned 1 5 = Some (Inr 0, s') \<and> pinCnt (bufDescTable s' ! 0) = 2 \<and>
      refbit (bufDescTable s' ! 0) \<and> ioLog s' = []) \<and>
   length (bufDescTable pool_dirty) = numBufs pool_dirty \<and>
   hashTable pool_dirty (Some 1, 2) = None \<and>
   (\<exists>s'. readPage pool_dirty 1 2 = Some (Inr 0, s') \<and> valid (bufDescTable s' ! 0) \<and>
      pinCnt (bufDescTable s' ! 0) = 1 \<and> refbit (bufDescTable s' ! 0) \<and>
      \<not> dirty (bufDescTable s' ! 0) \<and> hashTable s' (Some 1, 2) = Some 0)"
proof -
  have len1: "length (bufDescTable pool_pinned) = numBufs pool_pinned"
    and hit: "hashTable pool_pinned (Some 1, 5) = Some 0"
    and pin: "pinCnt (bufDescTable pool_pinned ! 0) = 1"
    and log: "ioLog pool_pinned = []"
    by (simp_all add: pool_pinned_def)
  have "\<exists>s'. readPage pool_pinned 1 5 = Some (Inr 0, s')"
    by (simp add: readPage_def hash_lookup_def pool_pinned_def)
  then obtain s1 where r1: "readPage pool_pinned 1 5 = Some (Inr 0, s1)" by blast
  have len2: "length (bufDescTable pool_dirty) = numBufs pool_dirty"
    and miss: "hashTable pool_dirty (Some 1, 2) = None"
    by (simp_all add: pool_dirty_def)
  have "\<exists>s'. readPage pool_dirty 1 2 = Some (Inr 0, s')"
    by (simp add: readPage_def hash_lookup_def pool_dirty_def scan_eval file_readPage_def)
  then obtain s2 where r2: "readPage pool_dirty 1 2 = Some (Inr 0, s2)" by blast
  from readPage_pins_once[OF r1 len1] hit
  have "pinCnt (bufDescTable s1 ! 0) = pinCnt (bufDescTable pool_pinned ! 0) + 1 \<and>
      refbit (bufDescTable s1 ! 0) \<and> ioLog s1 = ioLog pool_pinned"
    by blast
  with pin log
  have a: "pinCnt (bufDescTable s1 ! 0) = 2 \<and> refbit (bufDescTable s1 ! 0) \<and> ioLog s1 = []"
    by simp
  from readPage_pins_once[OF r2 len2] miss
  have b: "valid (bufDescTable s2 ! 0) \<and> pinCnt (bufDescTable s2 ! 0) = 1 \<and>
      refbit (bufDescTable s2 ! 0) \<and> \<not> dirty (bufDescTable s2 ! 0) \<and>
      hashTable s2 (Some 1, 2) = Some 0"
    by simp
  from len1 hit pin r1 a len2 miss r2 b show ?thesis by blast
qed

text \<open>
  Claim C10. disposePage on a page held in frame \<open>fid\<close> clears the descriptor of the
  frame, removes the index entry and calls deletePage on the file, whatever the pin count
  and the dirty flag of the frame are: the only call made on the file is the deletion, so
  a dirty page is not written back. The call fails only if the file does not hold the page.
\<close>

theorem disposePage_ignores_pins:
  assumes "hashTable s (Some f, p) = Some fid" and "fid < numBufs s"
  shows "\<exists>r s'. disposePage s f p = (r, s') \<and>
     bufDescTable s' = (bufDescTable s)[fid := BufDesc_Clear (bufDescTable s ! fid)] \<and>
     hashTable s' = (hashTable s)((Some f, p) := None) \<and>
     ioLog s' = ioLog s @ [IoDelete f p] \<and>
     (disk s (f, p) \<noteq> None \<longrightarrow> r = Inr () \<and> disk s' = (disk s)((f, p) := None)) \<and>
     (disk s (f, p) = None \<longrightarrow> r = Inl IOError \<and> disk s' = disk s)"
  using assms
  by (cases "disk s (f, p)")
     (simp_all add: disposePage_def hash_lookup_def hash_remove_def file_deletePage_def Let_def)

theorem disposePage_ignores_pins_witness:
  "hashTable pool_mixed (Some 1, 5) = Some 0 \<and> 0 < numBufs pool_mixed \<and>
   pinCnt (bufDescTable pool_mixed ! 0) = 2 \<and> dirty (bufDescTable pool_mixed ! 0) \<and>
   disk pool_mixed (1, 5) = Some ''five'' \<and>
   (\<exists>s'. disposePage pool_mixed 1 5 = (Inr (), s') \<and> \<not> valid (bufDescTable s' ! 0) \<and>
      hashTable s' (Some 1, 5) = None \<and> ioLog s' = [IoDelete 1 5] \<and> disk s' (1, 5) = None)"
proof -
  have h: "hashTable pool_mixed (Some 1, 5) = Some 0" "0 < numBufs pool_mixed"
    and d: "pinCnt (bufDescTable pool_mixed ! 0) = 2" "dirty (bufDescTable pool_mixed ! 0)"
      "disk pool_mixed (1, 5) = Some ''five''"
    and l: "ioLog pool_mixed = []" "length (bufDescTable pool_mixed) = 2"
    by (simp_all add: pool_mixed_def)
  from disposePage_ignores_pins[OF h] d(3) l
  have "\<exists>s'. disposePage pool_mixed 1 5 = (Inr (), s') \<and> \<not> valid (bufDescTable s' ! 0) \<and>
      hashTable s' (Some 1, 5) = None \<and> ioLog s' = [IoDelete 1 5] \<and> disk s' (1, 5) = None"
    by (auto simp: BufDesc_Clear_def)
  with h d show ?thesis by blast
qed

section \<open>flushFile\<close>

lemma flushFile_body_cases:
  assumes "flushFile_body s f i = (r, s')"
  shows "(s' = s \<and> (r = Inr () \<longrightarrow>
            \<not> (file' (bufDescTable s ! i) = Some f \<and> dirty (bufDescTable s ! i)) \<and>
            (file' (bufDescTable s ! i) = Some f \<longrightarrow>
               valid (bufDescTable s ! i) \<and> pinCnt (bufDescTable s ! i) = 0))) \<or>
         (file' (bufDescTable s ! i) = Some f \<and> valid (bufDescTable s ! i) \<and>
          pinCnt (bufDescTable s ! i) = 0 \<and> dirty (bufDescTable s ! i) \<and>
          frameNo (bufDescTable s ! i) < numBufs s \<and>
          ((r = Inl IOError \<and> disk s (f, page_number (bufPool s ! frameNo (bufDescTable s ! i))) = None \<and>
            s' = s\<lparr>ioLog := ioLog s @ [IoWrite f (bufPool s ! frameNo (bufDescTable s ! i))]\<rparr>) \<or>
           (r = Inr () \<and> disk s (f, page_number (bufPool s ! frameNo (bufDescTable s ! i))) \<noteq> None \<and>
            s' = s\<lparr>ioLog := ioLog s @ [IoWrite f (bufPool s ! frameNo (bufDescTable s ! i))],
                   disk := (disk s)((f, page_number (bufPool s ! frameNo (bufDescTable s ! i))) \<mapsto>
                             contents (bufPool s ! frameNo (bufDescTable s ! i))),
                   hashTable := hash_remove (hashTable s) (Some f) (pageNo (bufDescTable s ! i)),
                   bufDescTable := (bufDescTable s)[i := BufDesc_Clear (bufDescTable s ! i)]\<rparr>)))"
proof (cases "file' (bufDescTable s ! i) = Some f \<and> valid (bufDescTable s ! i) \<and>
          pinCnt (bufDescTable s ! i) = 0 \<and> dirty (bufDescTable s ! i) \<and>
          frameNo (bufDescTable s ! i) < numBufs s")
  case False
  with assms show ?thesis
    by (auto simp: flushFile_body_def Let_def split: if_splits)
next
  case True
  have c: "BufDesc_Clear ((bufDescTable s ! i)\<lparr>dirty := False\<rparr>) = BufDesc_Clear (bufDescTable s ! i)"
    by (simp add: BufDesc_Clear_def)
  show ?thesis
  proof (cases "disk s (f, page_number (bufPool s ! frameNo (bufDescTable s ! i)))")
    case None
    with assms True show ?thesis
      by (simp add: flushFile_body_def Let_def file_writePage_def) 
  next
    case (Some c')
    with assms True c show ?thesis
      by (simp add: flushFile_body_def Let_def file_writePage_def) 
  qed
qed








section \<open>What a failed call leaves behind\<close>








lemma allocPage_refused:
  "allocPage s f None = Some (Inl IOError, s\<lparr>ioLog := ioLog s @ [IoAllocate f]\<rparr>)"
  by (simp add: allocPage_def file_allocatePage_def)





section \<open>The constructor\<close>

lemma int_of_mul_1_2_one: "int_of_mul_1_2 1 = Some 1"
  by (simp add: int_of_mul_1_2_def round53_def double_1_2_def)

lemma htsize_of_one: "htsize_of 1 = Some 2"
  using int_of_mul_1_2_one by (simp add: htsize_of_def)

text \<open>
  Claim C9 does not hold as stated: for one frame the product \<open>1 * 1.2\<close> truncates to
  1, and \<open>((1*2)/2)+1\<close> is 2, an even capacity.
\<close>

theorem BufMgr_new_even_htsize:
  "BufMgr_new 1 (disk pool_clean) = Inr pool_made \<and> htsize pool_made = 2 \<and>
   \<not> odd (htsize pool_made)"
  using htsize_of_one by (simp add: BufMgr_new_def pool_made_def BufDesc_new_def)

lemma htsize_of_Some:
  assumes "htsize_of bufs = Some h"
  shows "\<exists>x. int_of_mul_1_2 bufs = Some x \<and> h = x + 1"
  using assms by (auto simp: htsize_of_def split: option.splits if_splits)

text \<open>
  Claim C9, amended. The constructor passes to the hash table the capacity
  \<open>(int)(bufs * 1.2) + 1\<close>, which is odd exactly when the truncated product is even.
  It makes \<open>bufs\<close> descriptors, none of them valid, each with its own frame number,
  and an empty index. For \<open>bufs\<close> of at least 1 the clock hand is \<open>bufs - 1\<close> and the
  first advance lands on frame 0.
\<close>

theorem BufMgr_new_state:
  assumes "BufMgr_new bufs dsk = Inr s"
  shows "(\<exists>x. int_of_mul_1_2 bufs = Some x \<and> htsize s = x + 1 \<and> (odd (htsize s) \<longleftrightarrow> even x)) \<and>
    numBufs s = bufs \<and> length (bufDescTable s) = bufs \<and> length (bufPool s) = bufs \<and>
    (\<forall>i<bufs. \<not> valid (bufDescTable s ! i) \<and> frameNo (bufDescTable s ! i) = i) \<and>
    hashTable s = Map.empty \<and>
    (0 < bufs \<and> bufs < 4294967296 \<longrightarrow>
       clockHand s = bufs - 1 \<and> advanceClock s = Inr (s\<lparr>clockHand := 0\<rparr>))"
proof -
  from assms obtain h where h: "htsize_of bufs = Some h"
    and s: "s = \<lparr>numBufs = bufs,
               bufDescTable = map (\<lambda>i. BufDesc_new\<lparr>frameNo := i, valid := False\<rparr>) [0..<bufs],
               bufPool = replicate bufs empty_Page,
               hashTable = Map.empty,
               htsize = h,
               clockHand = (bufs + 4294967295) mod 4294967296,
               disk = dsk,
               ioLog = []\<rparr>"
    by (auto simp: BufMgr_new_def split: option.splits)
  from htsize_of_Some[OF h] obtain x where x: "int_of_mul_1_2 bufs = Some x" "h = x + 1" by blast
  have a: "\<exists>x. int_of_mul_1_2 bufs = Some x \<and> htsize s = x + 1 \<and> (odd (htsize s) \<longleftrightarrow> even x)"
    using x s by simp
  have b: "numBufs s = bufs \<and> length (bufDescTable s) = bufs \<and> length (bufPool s) = bufs \<and>
    (\<forall>i<bufs. \<not> valid (bufDescTable s ! i) \<and> frameNo (bufDescTable s ! i) = i) \<and>
    hashTable s = Map.empty"
    using s by simp
  have c: "clockHand s = bufs - 1 \<and> advanceClock s = Inr (s\<lparr>clockHand := 0\<rparr>)"
    if "0 < bufs \<and> bufs < 4294967296"
  proof -
    from that have "bufs + 4294967295 = (bufs - 1) + 4294967296" by simp
    then have "(bufs + 4294967295) mod 4294967296 = (bufs - 1) mod 4294967296"
      by (metis mod_add_self2)
    also have "\<dots> = bufs - 1"
    proof -
      have "bufs - 1 < 4294967296" using that by arith
      then show ?thesis by (rule mod_less)
    qed
    finally have hand: "clockHand s = bufs - 1" using s by simp
    have "clockHand s + 1 = bufs" using hand that by simp
    then have "((clockHand s + 1) mod 4294967296) mod numBufs s = 0" using that b by simp
    moreover have "numBufs s \<noteq> 0" using that b by simp
    ultimately have "advanceClock s = Inr (s\<lparr>clockHand := 0\<rparr>)"
      by (simp add: advanceClock_def)
    with hand show ?thesis by simp
  qed
  from a b c show ?thesis by blast
qed

theorem BufMgr_new_state_witness:
  "(\<exists>s. BufMgr_new 2 (disk pool_clean) = Inr s \<and> htsize s = 3 \<and> odd (htsize s) \<and>
      numBufs s = 2 \<and> \<not> valid (bufDescTable s ! 0) \<and> \<not> valid (bufDescTable s ! 1) \<and>
      clockHand s = 1 \<and> advanceClock s = Inr (s\<lparr>clockHand := 0\<rparr>))"
proof -
  have two: "int_of_mul_1_2 2 = Some 2"
    by (simp add: int_of_mul_1_2_def round53_def double_1_2_def bitlen.simps Let_def)
  then have "htsize_of 2 = Some 3" by (simp add: htsize_of_def)
  then have "\<exists>s. BufMgr_new 2 (disk pool_clean) = Inr s" by (simp add: BufMgr_new_def)
  then obtain s where s: "BufMgr_new 2 (disk pool_clean) = Inr s" by blast
  from BufMgr_new_state[OF s] two
  have "htsize s = 3 \<and> odd (htsize s) \<and>
      numBufs s = 2 \<and> \<not> valid (bufDescTable s ! 0) \<and> \<not> valid (bufDescTable s ! 1) \<and>
      clockHand s = 1 \<and> advanceClock s = Inr (s\<lparr>clockHand := 0\<rparr>)"
    by auto
  with s show ?thesis by blast
qed

section \<open>Index and descriptor table agree\<close>

subsection \<open>The invariant on a table and an index\<close>

lemma agree_length: "agree N t h D \<Longrightarrow> length t = N"
  by (simp add: agree_def)

lemma agree_lookup:
  "agree N t h D \<Longrightarrow> h (f, p) = Some i \<Longrightarrow>
   i < N \<and> valid (t ! i) \<and> file' (t ! i) = f \<and> pageNo (t ! i) = p"
  by (simp add: agree_def)

lemma agree_indexed:
  "agree N t h D \<Longrightarrow> i < N \<Longrightarrow> valid (t ! i) \<Longrightarrow> h (file' (t ! i), pageNo (t ! i)) = Some i"
  by (simp add: agree_def)

lemma agree_on_disk:
  "agree N t h D \<Longrightarrow> i < N \<Longrightarrow> valid (t ! i) \<Longrightarrow>
   \<exists>f. file' (t ! i) = Some f \<and> (f, pageNo (t ! i)) \<in> D"
  by (simp add: agree_def)

lemma agreeI:
  assumes "length t = N"
    and "\<And>f p i. h (f, p) = Some i \<Longrightarrow>
           i < N \<and> valid (t ! i) \<and> file' (t ! i) = f \<and> pageNo (t ! i) = p"
    and "\<And>i. i < N \<Longrightarrow> valid (t ! i) \<Longrightarrow> h (file' (t ! i), pageNo (t ! i)) = Some i"
    and "\<And>i. i < N \<Longrightarrow> valid (t ! i) \<Longrightarrow> \<exists>f. file' (t ! i) = Some f \<and> (f, pageNo (t ! i)) \<in> D"
  shows "agree N t h D"
proof -
  have a: "\<forall>f p i. h (f, p) = Some i \<longleftrightarrow>
      i < N \<and> valid (t ! i) \<and> file' (t ! i) = f \<and> pageNo (t ! i) = p"
  proof (intro allI iffI)
    fix f p i assume "h (f, p) = Some i"
    from assms(2)[OF this]
    show "i < N \<and> valid (t ! i) \<and> file' (t ! i) = f \<and> pageNo (t ! i) = p" .
  next
    fix f p i assume "i < N \<and> valid (t ! i) \<and> file' (t ! i) = f \<and> pageNo (t ! i) = p"
    with assms(3)[of i] show "h (f, p) = Some i" by auto
  qed
  have b: "\<forall>i<N. valid (t ! i) \<longrightarrow> (\<exists>f. file' (t ! i) = Some f \<and> (f, pageNo (t ! i)) \<in> D)"
    using assms(4) by blast
  show ?thesis unfolding agree_def by (rule conjI[OF assms(1) conjI[OF a b]])
qed

lemma agree_unique:
  assumes "agree N t h D" and "i < N" "j < N" "valid (t ! i)" "valid (t ! j)"
    and "file' (t ! i) = file' (t ! j)" "pageNo (t ! i) = pageNo (t ! j)"
  shows "i = j"
proof -
  have a: "h (file' (t ! i), pageNo (t ! i)) = Some i"
    using assms(1,2,4) by (rule agree_indexed)
  have "h (file' (t ! j), pageNo (t ! j)) = Some j"
    using assms(1,3,5) by (rule agree_indexed)
  then have b: "h (file' (t ! i), pageNo (t ! i)) = Some j"
    by (simp only: assms(6,7))
  from a b show ?thesis by simp
qed

lemma agree_touch:
  assumes "agree N t h D" and "valid c = valid (t ! i)" and "file' c = file' (t ! i)"
    and "pageNo c = pageNo (t ! i)"
  shows "agree N (t[i := c]) h D"
proof -
  note len = agree_length[OF assms(1)]
  have same: "valid (t[i := c] ! j) = valid (t ! j) \<and> file' (t[i := c] ! j) = file' (t ! j) \<and>
      pageNo (t[i := c] ! j) = pageNo (t ! j)"
    if "j < N" for j
    using that assms(2-4) len by (cases "j = i") simp_all
  show ?thesis
  proof (rule agreeI)
    show "length (t[i := c]) = N" using len by simp
    show "j < N \<and> valid (t[i := c] ! j) \<and> file' (t[i := c] ! j) = f \<and> pageNo (t[i := c] ! j) = p"
      if "h (f, p) = Some j" for f p j
      using agree_lookup[OF assms(1) that] same[of j] by simp
    show "h (file' (t[i := c] ! j), pageNo (t[i := c] ! j)) = Some j"
      if "j < N" "valid (t[i := c] ! j)" for j
      using agree_indexed[OF assms(1) that(1)] same[OF that(1)] that(2) by simp
    show "\<exists>f. file' (t[i := c] ! j) = Some f \<and> (f, pageNo (t[i := c] ! j)) \<in> D"
      if "j < N" "valid (t[i := c] ! j)" for j
      using agree_on_disk[OF assms(1) that(1)] same[OF that(1)] that(2) by simp
  qed
qed

lemma agree_unref:
  assumes "agree N t h D" and "map unref t' = map unref t"
  shows "agree N t' h D"
proof -
  note len = agree_length[OF assms(1)]
  have len': "length t' = N" using map_eq_imp_length_eq[OF assms(2)] len by simp
  have u: "unref (t' ! j) = unref (t ! j)" if "j < N" for j
    using map_unref_nth[OF assms(2)] that len by simp
  have same: "valid (t' ! j) = valid (t ! j) \<and> file' (t' ! j) = file' (t ! j) \<and>
      pageNo (t' ! j) = pageNo (t ! j)" if "j < N" for j
    using unref_fields[OF u[OF that]] by simp
  show ?thesis
  proof (rule agreeI)
    show "length t' = N" by (rule len')
    show "j < N \<and> valid (t' ! j) \<and> file' (t' ! j) = f \<and> pageNo (t' ! j) = p"
      if "h (f, p) = Some j" for f p j
      using agree_lookup[OF assms(1) that] same[of j] by simp
    show "h (file' (t' ! j), pageNo (t' ! j)) = Some j" if "j < N" "valid (t' ! j)" for j
      using agree_indexed[OF assms(1) that(1)] same[OF that(1)] that(2) by simp
    show "\<exists>f. file' (t' ! j) = Some f \<and> (f, pageNo (t' ! j)) \<in> D"
      if "j < N" "valid (t' ! j)" for j
      using agree_on_disk[OF assms(1) that(1)] same[OF that(1)] that(2) by simp
  qed
qed

lemma agree_clear_valid:
  assumes "agree N t h D" and "fr < N" and "valid (t ! fr)" and "\<not> valid c"
  shows "agree N (t[fr := c]) (h((file' (t ! fr), pageNo (t ! fr)) := None)) D"
proof (rule agreeI)
  note len = agree_length[OF assms(1)]
  show "length (t[fr := c]) = N" using len by simp
  show "j < N \<and> valid (t[fr := c] ! j) \<and> file' (t[fr := c] ! j) = f \<and> pageNo (t[fr := c] ! j) = p"
    if "(h((file' (t ! fr), pageNo (t ! fr)) := None)) (f, p) = Some j" for f p j
  proof -
    from that have k: "(f, p) \<noteq> (file' (t ! fr), pageNo (t ! fr))" and hk: "h (f, p) = Some j"
      by (auto split: if_splits)
    note l = agree_lookup[OF assms(1) hk]
    with k have "j \<noteq> fr" by auto
    with l show ?thesis by simp
  qed
  show "(h((file' (t ! fr), pageNo (t ! fr)) := None))
          (file' (t[fr := c] ! j), pageNo (t[fr := c] ! j)) = Some j"
    if "j < N" "valid (t[fr := c] ! j)" for j
  proof -
    from that assms(4) len have ne: "j \<noteq> fr" by auto
    with that have v: "valid (t ! j)" by simp
    have "\<not> (file' (t ! j) = file' (t ! fr) \<and> pageNo (t ! j) = pageNo (t ! fr))"
      using agree_unique[OF assms(1) that(1) assms(2) v assms(3)] ne by blast
    with agree_indexed[OF assms(1) that(1) v] ne show ?thesis by auto
  qed
  show "\<exists>f. file' (t[fr := c] ! j) = Some f \<and> (f, pageNo (t[fr := c] ! j)) \<in> D"
    if "j < N" "valid (t[fr := c] ! j)" for j
  proof -
    from that assms(4) len have ne: "j \<noteq> fr" by auto
    with that agree_on_disk[OF assms(1) that(1)] show ?thesis by simp
  qed
qed

lemma agree_clear_free:
  assumes "agree N t h D" and "\<not> valid (t ! fr)" and "\<not> valid c"
  shows "agree N (t[fr := c]) h D"
proof (rule agreeI)
  note len = agree_length[OF assms(1)]
  have keep: "t[fr := c] ! j = t ! j" if "valid (t[fr := c] ! j) \<or> valid (t ! j)" "j < N" for j
    using that assms(2,3) len by (cases "j = fr") auto
  show "length (t[fr := c]) = N" using len by simp
  show "j < N \<and> valid (t[fr := c] ! j) \<and> file' (t[fr := c] ! j) = f \<and> pageNo (t[fr := c] ! j) = p"
    if "h (f, p) = Some j" for f p j
    using agree_lookup[OF assms(1) that] keep[of j] by simp
  show "h (file' (t[fr := c] ! j), pageNo (t[fr := c] ! j)) = Some j"
    if "j < N" "valid (t[fr := c] ! j)" for j
    using agree_indexed[OF assms(1) that(1)] keep[of j] that by simp
  show "\<exists>f. file' (t[fr := c] ! j) = Some f \<and> (f, pageNo (t[fr := c] ! j)) \<in> D"
    if "j < N" "valid (t[fr := c] ! j)" for j
    using agree_on_disk[OF assms(1) that(1)] keep[of j] that by simp
qed

lemma agree_set:
  assumes "agree N t h D" and "fr < N" and "\<not> valid (t ! fr)" and "h (Some f, p) = None"
    and "(f, p) \<in> D" and "valid c" and "file' c = Some f" and "pageNo c = p"
  shows "agree N (t[fr := c]) (h((Some f, p) \<mapsto> fr)) D"
proof (rule agreeI)
  note len = agree_length[OF assms(1)]
  show "length (t[fr := c]) = N" using len by simp
  show "j < N \<and> valid (t[fr := c] ! j) \<and> file' (t[fr := c] ! j) = g \<and> pageNo (t[fr := c] ! j) = q"
    if "(h((Some f, p) \<mapsto> fr)) (g, q) = Some j" for g q j
  proof (cases "(g, q) = (Some f, p)")
    case True
    with that have "j = fr" by simp
    with True assms(2,6,7,8) len show ?thesis by simp
  next
    case False
    with that have hk: "h (g, q) = Some j" by (auto split: if_splits)
    note l = agree_lookup[OF assms(1) hk]
    with assms(3) have "j \<noteq> fr" by auto
    with l show ?thesis by simp
  qed
  show "(h((Some f, p) \<mapsto> fr)) (file' (t[fr := c] ! j), pageNo (t[fr := c] ! j)) = Some j"
    if "j < N" "valid (t[fr := c] ! j)" for j
  proof (cases "j = fr")
    case True
    with assms(2,7,8) len show ?thesis by simp
  next
    case False
    with that have v: "valid (t ! j)" by simp
    note ix = agree_indexed[OF assms(1) that(1) v]
    with assms(4) have "(file' (t ! j), pageNo (t ! j)) \<noteq> (Some f, p)" by auto
    with ix False show ?thesis by simp
  qed
  show "\<exists>g. file' (t[fr := c] ! j) = Some g \<and> (g, pageNo (t[fr := c] ! j)) \<in> D"
    if "j < N" "valid (t[fr := c] ! j)" for j
  proof (cases "j = fr")
    case True
    with assms(2,5,7,8) len show ?thesis by simp
  next
    case False
    with that agree_on_disk[OF assms(1) that(1)] show ?thesis by simp
  qed
qed

lemma agree_disk_grow:
  assumes "agree N t h D" and "D \<subseteq> D'"
  shows "agree N t h D'"
proof (rule agreeI)
  show "length t = N" using assms(1) by (rule agree_length)
  show "j < N \<and> valid (t ! j) \<and> file' (t ! j) = f \<and> pageNo (t ! j) = p" if "h (f, p) = Some j" for f p j
    using agree_lookup[OF assms(1) that] .
  show "h (file' (t ! j), pageNo (t ! j)) = Some j" if "j < N" "valid (t ! j)" for j
    using agree_indexed[OF assms(1) that] .
  show "\<exists>g. file' (t ! j) = Some g \<and> (g, pageNo (t ! j)) \<in> D'" if "j < N" "valid (t ! j)" for j
    using agree_on_disk[OF assms(1) that] assms(2) by blast
qed

lemma agree_absent:
  assumes "agree N t h D" and "(f, p) \<notin> D"
  shows "h (Some f, p) = None"
proof (cases "h (Some f, p)")
  case None
  then show ?thesis .
next
  case (Some i)
  note l = agree_lookup[OF assms(1) Some]
  then have fp: "file' (t ! i) = Some f" "pageNo (t ! i) = p" and i: "i < N" "valid (t ! i)"
    by simp_all
  from agree_on_disk[OF assms(1) i] fp have "(f, p) \<in> D" by simp
  with assms(2) show ?thesis by simp
qed

lemma agree_disk_delete:
  assumes "agree N t h D" and "h (Some f, p) = None"
  shows "agree N t h (D - {(f, p)})"
proof (rule agreeI)
  show "length t = N" using assms(1) by (rule agree_length)
  show "j < N \<and> valid (t ! j) \<and> file' (t ! j) = g \<and> pageNo (t ! j) = q" if "h (g, q) = Some j" for g q j
    using agree_lookup[OF assms(1) that] .
  show "h (file' (t ! j), pageNo (t ! j)) = Some j" if "j < N" "valid (t ! j)" for j
    using agree_indexed[OF assms(1) that] .
  show "\<exists>g. file' (t ! j) = Some g \<and> (g, pageNo (t ! j)) \<in> D - {(f, p)}"
    if "j < N" "valid (t ! j)" for j
  proof -
    from agree_on_disk[OF assms(1) that] obtain g where g: "file' (t ! j) = Some g"
      "(g, pageNo (t ! j)) \<in> D" by blast
    have "h (file' (t ! j), pageNo (t ! j)) = Some j" using agree_indexed[OF assms(1) that] .
    with assms(2) g(1) have "(g, pageNo (t ! j)) \<noteq> (f, p)" by auto
    with g show ?thesis by blast
  qed
qed

subsection \<open>Every method keeps the invariant\<close>

lemma pool_inv_length: "pool_inv s \<Longrightarrow> length (bufDescTable s) = numBufs s"
  unfolding pool_inv_def by (rule agree_length)

lemma pool_inv_allocBuf:
  assumes "pool_inv s" and "allocBuf s = Some (r, s', n)"
  shows "pool_inv s'" "numBufs s' = numBufs s" "dom (disk s') = dom (disk s)"
    "\<And>f p. hashTable s (f, p) = None \<Longrightarrow> hashTable s' (f, p) = None"
    "\<And>fr. r = Inr fr \<Longrightarrow> fr < numBufs s \<and> \<not> valid (bufDescTable s' ! fr)"
proof -
  note len = pool_inv_length[OF assms(1)]
  note e = allocBuf_effect[OF assms(2) len]
  note ag = assms(1)[unfolded pool_inv_def]
  show "numBufs s' = numBufs s" by (rule e(1))
  show "dom (disk s') = dom (disk s)" by (rule e(5))
  show free: "fr < numBufs s \<and> \<not> valid (bufDescTable s' ! fr)" if "r = Inr fr" for fr
    using allocBuf_frame_cleared[OF assms(2)[unfolded that] len] by (simp add: BufDesc_Clear_def)
  show "pool_inv s'"
  proof (cases r)
    case (Inl err)
    from e(6)[OF Inl] agree_unref[OF ag] e(1,5) show ?thesis by (simp add: pool_inv_def)
  next
    case (Inr fr)
    let ?d = "bufDescTable s ! fr"
    note x = e(7)[OF Inr]
    have nv: "\<not> valid (BufDesc_Clear ?d)" by (simp add: BufDesc_Clear_def)
    have m: "map unref (bufDescTable s') = map unref ((bufDescTable s)[fr := BufDesc_Clear ?d])"
      using x by (simp add: map_update unref_Clear)
    have "agree (numBufs s) ((bufDescTable s)[fr := BufDesc_Clear ?d]) (hashTable s') (dom (disk s))"
    proof (cases "valid ?d")
      case True
      with x have "hashTable s' = (hashTable s)((file' ?d, pageNo ?d) := None)"
        by (simp add: hash_remove_def)
      with agree_clear_valid[OF ag _ True nv] x show ?thesis by simp
    next
      case False
      with x have "hashTable s' = hashTable s" by simp
      with agree_clear_free[OF ag False nv] show ?thesis by simp
    qed
    from agree_unref[OF this m] e(1,5) show ?thesis by (simp add: pool_inv_def)
  qed
  show "hashTable s' (f, p) = None" if "hashTable s (f, p) = None" for f p
  proof (cases r)
    case (Inl err)
    with e(6)[OF Inl] that show ?thesis by simp
  next
    case (Inr fr)
    with e(7)[OF Inr] that show ?thesis by (simp add: hash_remove_def)
  qed
qed

lemma pool_inv_ioLog: "pool_inv (s\<lparr>ioLog := l\<rparr>) = pool_inv s"
  by (simp add: pool_inv_def)

lemma pool_inv_readPage:
  assumes "pool_inv s" and "readPage s f p = Some (r, s')"
  shows "pool_inv s'"
proof (cases "hashTable s (Some f, p)")
  case (Some j)
  note ag = assms(1)[unfolded pool_inv_def]
  show ?thesis
  proof (cases "j < numBufs s")
    case True
    with assms(2) readPage_hit[OF Some]
    have "s' = s\<lparr>bufDescTable := (bufDescTable s)
               [j := (bufDescTable s ! j)\<lparr>refbit := True, pinCnt := pinCnt (bufDescTable s ! j) + 1\<rparr>]\<rparr>"
      by simp
    moreover have "agree (numBufs s)
        ((bufDescTable s)[j := (bufDescTable s ! j)\<lparr>refbit := True, pinCnt := pinCnt (bufDescTable s ! j) + 1\<rparr>])
        (hashTable s) (dom (disk s))"
      by (rule agree_touch[OF ag]) simp_all
    ultimately show ?thesis by (simp add: pool_inv_def)
  next
    case False
    with assms readPage_hit[OF Some] show ?thesis by simp
  qed
next
  case None
  from assms(2) readPage_miss[OF None] obtain r1 s1 n where run: "allocBuf s = Some (r1, s1, n)"
    by (cases "allocBuf s") auto
  note a = pool_inv_allocBuf[OF assms(1) run]
  note ag1 = a(1)[unfolded pool_inv_def]
  show ?thesis
  proof (cases r1)
    case (Inl err)
    with assms(2) readPage_miss[OF None] run have "s' = s1" by simp
    with a(1) show ?thesis by simp
  next
    case (Inr i)
    show ?thesis
    proof (cases "disk s1 (f, p)")
      case dn: None
      with assms(2) readPage_miss[OF None] run Inr
      have "s' = s1\<lparr>ioLog := ioLog s1 @ [IoRead f p]\<rparr>" by simp
      with a(1) show ?thesis by (simp add: pool_inv_ioLog)
    next
      case (Some c)
      with assms(2) readPage_miss[OF None] run Inr
      have s': "s' = s1\<lparr>ioLog := ioLog s1 @ [IoRead f p],
                       bufPool := (bufPool s1)[i := \<lparr>page_number = p, contents = c\<rparr>],
                       hashTable := hash_insert (hashTable s1) (Some f) p i,
                       bufDescTable := (bufDescTable s1)
                         [i := BufDesc_Set (bufDescTable s1 ! i) (Some f) p]\<rparr>"
        by simp
      have i: "i < numBufs s1" "\<not> valid (bufDescTable s1 ! i)" using a(5)[OF Inr] a(2) by simp_all
      have "agree (numBufs s1) ((bufDescTable s1)[i := BufDesc_Set (bufDescTable s1 ! i) (Some f) p])
          ((hashTable s1)((Some f, p) \<mapsto> i)) (dom (disk s1))"
      proof (rule agree_set[OF ag1 i a(4)[OF None]])
        show "(f, p) \<in> dom (disk s1)" using Some by auto
      qed (simp_all add: BufDesc_Set_def)
      with s' show ?thesis by (simp add: pool_inv_def hash_insert_def)
    qed
  qed
qed

lemma pool_inv_unPinPage:
  assumes "pool_inv s" and "unPinPage s f p b = (r, s')"
  shows "pool_inv s'"
proof -
  note ag = assms(1)[unfolded pool_inv_def]
  have t: "agree (numBufs s) ((bufDescTable s)[i := c]) (hashTable s) (dom (disk s))"
    if "valid c = valid (bufDescTable s ! i)" "file' c = file' (bufDescTable s ! i)"
      "pageNo c = pageNo (bufDescTable s ! i)" for i c
    using ag that by (rule agree_touch)
  show ?thesis
  proof (cases "hashTable s (Some f, p)")
    case None
    with assms show ?thesis by (simp add: unPinPage_def hash_lookup_def)
  next
    case (Some fr)
    let ?d = "bufDescTable s ! fr"
    show ?thesis
    proof (cases "fr < numBufs s \<and> 0 < pinCnt ?d")
      case False
      with assms Some show ?thesis
        by (auto simp: unPinPage_def hash_lookup_def Let_def split: if_splits)
    next
      case True
      let ?c = "(if b then ?d\<lparr>dirty := True\<rparr> else ?d)\<lparr>pinCnt := pinCnt ?d - 1\<rparr>"
      from True assms(2) Some have "s' = s\<lparr>bufDescTable := (bufDescTable s)[fr := ?c]\<rparr>"
        by (auto simp: unPinPage_def hash_lookup_def Let_def)
      moreover have "agree (numBufs s) ((bufDescTable s)[fr := ?c]) (hashTable s) (dom (disk s))"
        by (rule t) simp_all
      ultimately show ?thesis by (simp add: pool_inv_def)
    qed
  qed
qed

lemma pool_inv_flushFile_body:
  assumes "pool_inv s" and "flushFile_body s f i = (r, s')" and "i < numBufs s"
  shows "pool_inv s' \<and> numBufs s' = numBufs s"
proof -
  note ag = assms(1)[unfolded pool_inv_def]
  let ?d = "bufDescTable s ! i"
  let ?pg = "bufPool s ! frameNo ?d"
  from flushFile_body_cases[OF assms(2)]
  consider (same) "s' = s"
    | (failed) "s' = s\<lparr>ioLog := ioLog s @ [IoWrite f ?pg]\<rparr>"
    | (flushed) "file' ?d = Some f" "valid ?d" "disk s (f, page_number ?pg) \<noteq> None"
        "s' = s\<lparr>ioLog := ioLog s @ [IoWrite f ?pg],
               disk := (disk s)((f, page_number ?pg) \<mapsto> contents ?pg),
               hashTable := hash_remove (hashTable s) (Some f) (pageNo ?d),
               bufDescTable := (bufDescTable s)[i := BufDesc_Clear ?d]\<rparr>"
    by blast
  then show ?thesis
  proof cases
    case same
    with assms(1) show ?thesis by simp
  next
    case failed
    with assms(1) show ?thesis by (simp add: pool_inv_ioLog)
  next
    case flushed
    have nv: "\<not> valid (BufDesc_Clear ?d)" by (simp add: BufDesc_Clear_def)
    have d: "dom ((disk s)((f, page_number ?pg) \<mapsto> contents ?pg)) = dom (disk s)"
      using flushed(3) by auto
    from agree_clear_valid[OF ag assms(3) flushed(2) nv] flushed(1)
    have "agree (numBufs s) ((bufDescTable s)[i := BufDesc_Clear ?d])
        (hash_remove (hashTable s) (Some f) (pageNo ?d)) (dom (disk s))"
      by (simp add: hash_remove_def)
    with flushed(4) d show ?thesis by (simp add: pool_inv_def)
  qed
qed

lemma pool_inv_flushFile_loop:
  assumes "pool_inv s" and "flushFile_loop js s f = (r, s')" and "\<forall>j\<in>set js. j < numBufs s"
  shows "pool_inv s'"
  using assms
proof (induction js arbitrary: s)
  case Nil
  then show ?case by simp
next
  case (Cons i rest)
  obtain r1 s1 where b: "flushFile_body s f i = (r1, s1)" by (cases "flushFile_body s f i")
  from Cons.prems(3) have i: "i < numBufs s" by simp
  note st = pool_inv_flushFile_body[OF Cons.prems(1) b i]
  show ?case
  proof (cases r1)
    case (Inl e)
    with Cons.prems(2) b have "s' = s1" by simp
    with st show ?thesis by simp
  next
    case (Inr u)
    with Cons.prems(2) b have "flushFile_loop rest s1 f = (r, s')" by simp
    moreover have "\<forall>j\<in>set rest. j < numBufs s1" using Cons.prems(3) st by simp
    ultimately show ?thesis using Cons.IH st by blast
  qed
qed

lemma pool_inv_flushFile:
  assumes "pool_inv s" and "flushFile s f = (r, s')"
  shows "pool_inv s'"
  using pool_inv_flushFile_loop[OF assms(1), of "[0..<numBufs s]" f r s'] assms(2)
  by (simp add: flushFile_def)

lemma pool_inv_allocPage:
  assumes "pool_inv s" and "disk s (f, newp) = None"
    and "allocPage s f (Some newp) = Some (r, s')"
  shows "pool_inv s'"
proof -
  note ag = assms(1)[unfolded pool_inv_def]
  let ?s0 = "s\<lparr>ioLog := ioLog s @ [IoAllocate f], disk := (disk s)((f, newp) \<mapsto> [])\<rparr>"
  have fa: "file_allocatePage s f (Some newp) = (Inr \<lparr>page_number = newp, contents = []\<rparr>, ?s0)"
    by (simp add: file_allocatePage_def)
  have absent: "hashTable s (Some f, newp) = None"
    using agree_absent[OF ag, of f newp] assms(2) by auto
  have "agree (numBufs s) (bufDescTable s) (hashTable s) (dom (disk ?s0))"
    using ag by (rule agree_disk_grow) auto
  then have inv0: "pool_inv ?s0" by (simp add: pool_inv_def)
  from assms(3) fa obtain r1 s1 n where run: "allocBuf ?s0 = Some (r1, s1, n)"
    by (cases "allocBuf ?s0") (auto simp: allocPage_def)
  note a = pool_inv_allocBuf[OF inv0 run]
  note ag1 = a(1)[unfolded pool_inv_def]
  show ?thesis
  proof (cases r1)
    case (Inl e)
    with assms(3) fa run have "s' = s1" by (simp add: allocPage_def)
    with a(1) show ?thesis by simp
  next
    case (Inr fr)
    with assms(3) fa run
    have s': "s' = s1\<lparr>bufPool := (bufPool s1)[fr := \<lparr>page_number = newp, contents = []\<rparr>],
                        hashTable := hash_insert (hashTable s1) (Some f) newp fr,
                        bufDescTable := (bufDescTable s1)
                          [fr := BufDesc_Set (bufDescTable s1 ! fr) (Some f) newp]\<rparr>"
      by (simp add: allocPage_def)
    have fr: "fr < numBufs s1" "\<not> valid (bufDescTable s1 ! fr)" using a(5)[OF Inr] a(2) by simp_all
    have h1: "hashTable s1 (Some f, newp) = None" using a(4)[of "Some f" newp] absent by simp
    have "agree (numBufs s1) ((bufDescTable s1)[fr := BufDesc_Set (bufDescTable s1 ! fr) (Some f) newp])
          ((hashTable s1)((Some f, newp) \<mapsto> fr)) (dom (disk s1))"
    proof (rule agree_set[OF ag1 fr h1])
      show "(f, newp) \<in> dom (disk s1)" using a(3) by simp
    qed (simp_all add: BufDesc_Set_def)
    with s' show ?thesis by (simp add: pool_inv_def hash_insert_def)
  qed
qed

lemma disposePage_resident:
  assumes "hashTable s (Some f, p) = Some fid" and "fid < numBufs s"
    and "disposePage s f p = (r, s')"
  shows "bufDescTable s' = (bufDescTable s)[fid := BufDesc_Clear (bufDescTable s ! fid)] \<and>
    hashTable s' = (hashTable s)((Some f, p) := None) \<and> numBufs s' = numBufs s \<and>
    (disk s' = disk s \<or> disk s' = (disk s)((f, p) := None))"
  using assms
  by (cases "disk s (f, p)")
     (auto simp: disposePage_def hash_lookup_def hash_remove_def file_deletePage_def Let_def)

lemma pool_inv_disposePage:
  assumes "pool_inv s" and "disposePage s f p = (r, s')"
  shows "pool_inv s'"
proof (cases "hashTable s (Some f, p)")
  case None
  with assms show ?thesis by (simp add: disposePage_def hash_lookup_def)
next
  case (Some fid)
  note ag = assms(1)[unfolded pool_inv_def]
  note l = agree_lookup[OF ag Some]
  let ?d = "bufDescTable s ! fid"
  let ?t = "(bufDescTable s)[fid := BufDesc_Clear ?d]"
  let ?h = "(hashTable s)((Some f, p) := None)"
  have nv: "\<not> valid (BufDesc_Clear ?d)" by (simp add: BufDesc_Clear_def)
  from l agree_clear_valid[OF ag _ _ nv, of fid]
  have ag2: "agree (numBufs s) ?t ?h (dom (disk s))" by simp
  have gone: "?h (Some f, p) = None" by simp
  from l have "fid < numBufs s" by simp
  from disposePage_resident[OF Some this assms(2)]
  have "bufDescTable s' = ?t \<and> hashTable s' = ?h \<and> numBufs s' = numBufs s \<and>
      (disk s' = disk s \<or> disk s' = (disk s)((f, p) := None))" .
  moreover have "agree (numBufs s) ?t ?h (dom ((disk s)((f, p) := None)))"
  proof -
    have "dom ((disk s)((f, p) := None)) = dom (disk s) - {(f, p)}" by simp
    then show ?thesis using agree_disk_delete[OF ag2 gone] by (simp only:)
  qed
  ultimately show ?thesis using ag2 by (auto simp: pool_inv_def)
qed

subsection \<open>Reachable states\<close>

lemma pool_inv_made:
  assumes "BufMgr_new bufs dsk = Inr s"
  shows "pool_inv s"
proof -
  from assms obtain h where
    s: "s = \<lparr>numBufs = bufs,
               bufDescTable = map (\<lambda>i. BufDesc_new\<lparr>frameNo := i, valid := False\<rparr>) [0..<bufs],
               bufPool = replicate bufs empty_Page,
               hashTable = Map.empty,
               htsize = h,
               clockHand = (bufs + 4294967295) mod 4294967296,
               disk = dsk,
               ioLog = []\<rparr>"
    by (auto simp: BufMgr_new_def split: option.splits)
  have "agree bufs (map (\<lambda>i. BufDesc_new\<lparr>frameNo := i, valid := False\<rparr>) [0..<bufs]) Map.empty (dom dsk)"
    by (rule agreeI) simp_all
  with s show ?thesis by (simp add: pool_inv_def)
qed

lemma pool_inv_written:
  "pool_inv (s\<lparr>bufPool := b\<rparr>) = pool_inv s"
  by (simp add: pool_inv_def)

lemma reachable_pool_inv: "reachable s \<Longrightarrow> pool_inv s"
proof (induction rule: reachable.induct)
  case (made bufs dsk s)
  then show ?case by (simp add: pool_inv_made)
next
  case (read s f p r s')
  then show ?case by (blast intro: pool_inv_readPage)
next
  case (unpinned s f p b u s')
  then show ?case by (blast intro: pool_inv_unPinPage)
next
  case (flushed s f u s')
  then show ?case by (blast intro: pool_inv_flushFile)
next
  case (allocated s f newp a s')
  then show ?case by (blast intro: pool_inv_allocPage)
next
  case (refused s f a s')
  from refused(2) have "s' = s\<lparr>ioLog := ioLog s @ [IoAllocate f]\<rparr>"
    by (simp add: allocPage_refused)
  with refused(3) show ?case by (simp add: pool_inv_ioLog)
next
  case (disposed s f p u s')
  then show ?case by (blast intro: pool_inv_disposePage)
next
  case (written s i c)
  then show ?case by (simp add: pool_inv_written)
qed

text \<open>
  Claim C8. In every state a manager can reach, no two frames are valid for the same
  file and page, and the index maps a file and page to a frame exactly when the
  descriptor of that frame is valid for them. The two places that insert into the index
  never insert a key that is there: when readPage has missed and allocBuf has run, the
  key is still absent; and the page number a file assigns to a new page (one the file
  does not hold) is absent after allocBuf has run.
\<close>

theorem index_and_table_agree:
  assumes "reachable s"
  shows "(\<forall>i j. i < numBufs s \<and> j < numBufs s \<and>
            valid (bufDescTable s ! i) \<and> valid (bufDescTable s ! j) \<and>
            file' (bufDescTable s ! i) = file' (bufDescTable s ! j) \<and>
            pageNo (bufDescTable s ! i) = pageNo (bufDescTable s ! j) \<longrightarrow> i = j) \<and>
         (\<forall>f p i. hashTable s (f, p) = Some i \<longleftrightarrow>
            i < numBufs s \<and> valid (bufDescTable s ! i) \<and>
            file' (bufDescTable s ! i) = f \<and> pageNo (bufDescTable s ! i) = p) \<and>
         (\<forall>f p r s1 n. hashTable s (Some f, p) = None \<and> allocBuf s = Some (r, s1, n) \<longrightarrow>
            hashTable s1 (Some f, p) = None) \<and>
         (\<forall>f newp r s1 n. disk s (f, newp) = None \<and>
            allocBuf (snd (file_allocatePage s f (Some newp))) = Some (r, s1, n) \<longrightarrow>
            hashTable s1 (Some f, newp) = None)"
proof -
  from assms have inv: "pool_inv s" by (rule reachable_pool_inv)
  note ag = inv[unfolded pool_inv_def]
  have a: "\<forall>i j. i < numBufs s \<and> j < numBufs s \<and>
            valid (bufDescTable s ! i) \<and> valid (bufDescTable s ! j) \<and>
            file' (bufDescTable s ! i) = file' (bufDescTable s ! j) \<and>
            pageNo (bufDescTable s ! i) = pageNo (bufDescTable s ! j) \<longrightarrow> i = j"
    using agree_unique[OF ag] by blast
  have b: "\<forall>f p i. hashTable s (f, p) = Some i \<longleftrightarrow>
            i < numBufs s \<and> valid (bufDescTable s ! i) \<and>
            file' (bufDescTable s ! i) = f \<and> pageNo (bufDescTable s ! i) = p"
    using ag unfolding agree_def by (rule conjunct1[OF conjunct2])
  have c: "hashTable s1 (Some f, p) = None"
    if "hashTable s (Some f, p) = None" "allocBuf s = Some (r, s1, n)" for f p r s1 n
    using pool_inv_allocBuf(4)[OF inv that(2) that(1)] .
  have d: "hashTable s1 (Some f, newp) = None"
    if "disk s (f, newp) = None"
      "allocBuf (snd (file_allocatePage s f (Some newp))) = Some (r, s1, n)"
    for f newp r s1 n
  proof -
    let ?s0 = "snd (file_allocatePage s f (Some newp))"
    have "hashTable s (Some f, newp) = None"
      using agree_absent[OF ag, of f newp] that(1) by auto
    then have h0: "hashTable ?s0 (Some f, newp) = None" by (simp add: file_allocatePage_def)
    have "agree (numBufs s) (bufDescTable s) (hashTable s) (dom (disk ?s0))"
      using ag by (rule agree_disk_grow) (auto simp: file_allocatePage_def)
    then have "pool_inv ?s0" by (simp add: pool_inv_def file_allocatePage_def)
    from pool_inv_allocBuf(4)[OF this that(2) h0] show ?thesis .
  qed
  from a b c d show ?thesis by blast
qed

theorem index_and_table_agree_witness:
  "reachable pool_made \<and>
   (\<exists>s'. readPage pool_made 1 1 = Some (Inr 0, s') \<and> reachable s' \<and>
      hashTable s' (Some 1, 1) = Some 0 \<and> valid (bufDescTable s' ! 0) \<and>
      file' (bufDescTable s' ! 0) = Some 1 \<and> pageNo (bufDescTable s' ! 0) = 1)"
proof -
  have "BufMgr_new 1 (disk pool_clean) = Inr pool_made"
    using htsize_of_one by (simp add: BufMgr_new_def pool_made_def BufDesc_new_def)
  then have r0: "reachable pool_made" by (rule reachable.made[rotated]) simp
  have "\<exists>s'. readPage pool_made 1 1 = Some (Inr 0, s') \<and> hashTable s' (Some 1, 1) = Some 0"
    by (simp add: pool_made_def pool_clean_def readPage_def hash_lookup_def scan_eval
        file_readPage_def hash_insert_def)
  then obtain s' where rd: "readPage pool_made 1 1 = Some (Inr 0, s')"
    and h: "hashTable s' (Some 1, 1) = Some 0" by blast
  from r0 rd have r1: "reachable s'" by (rule reachable.read)
  from index_and_table_agree[OF r1] h
  have v: "0 < numBufs s' \<and> valid (bufDescTable s' ! 0) \<and>
      file' (bufDescTable s' ! 0) = Some 1 \<and> pageNo (bufDescTable s' ! 0) = 1"
    by blast
  from r0 rd r1 h v show ?thesis by blast
qed

section \<open>Write-back in reachable states\<close>

















section \<open>The scan ends within two sweeps\<close>




end
